theory Spec2Isabelle
  imports Main "HOL-Library.Char_ord" "HOL-Library.List_Lexorder" "HOL-Library.Sublist"
begin

section \<open>Text primitives of the Python runtime\<close>

text \<open>
  Texts are lists of characters; a character stands for a code point below 256.
  \<open>isspace\<close> is the white space of \<open>str.strip\<close>, \<open>str.isspace\<close> and of the class \<open>\s\<close>
  of \<open>re\<close> on that range (code points 9 to 13, 28 to 32, 133 and 160); \<open>isdigit\<close> is the
  class \<open>\d\<close> there (the ten ASCII digits).
\<close>

definition NL :: char where
  "NL = CHR 0x0A"

definition isspace :: "char \<Rightarrow> bool" where
  "isspace c = (let n = (of_char c :: nat) in
     (9 \<le> n \<and> n \<le> 13) \<or> (28 \<le> n \<and> n \<le> 32) \<or> n = 133 \<or> n = 160)"

definition isdigit :: "char \<Rightarrow> bool" where
  "isdigit c = (let n = (of_char c :: nat) in 48 \<le> n \<and> n \<le> 57)"

text \<open>\<open>s.strip()\<close>: white space removed at both ends.\<close>

definition strip :: "string \<Rightarrow> string" where
  "strip s = rev (dropWhile isspace (rev (dropWhile isspace s)))"

text \<open>\<open>s.split('\n')\<close>: the result is never empty; \<open>''''\<close> splits into one empty line.\<close>

fun split_nl :: "string \<Rightarrow> string list" where
  "split_nl [] = [[]]"
| "split_nl (c # cs) =
     (let ls = split_nl cs in if c = NL then [] # ls else (c # hd ls) # tl ls)"

text \<open>\<open>sep.join(xs)\<close>.\<close>

fun join :: "string \<Rightarrow> string list \<Rightarrow> string" where
  "join sep [] = []"
| "join sep [x] = x"
| "join sep (x # y # ys) = x @ sep @ join sep (y # ys)"

section \<open>Regular expressions as \<open>re\<close> matches them\<close>

text \<open>
  The patterns of the scripts use single characters and character classes, the quantifiers
  \<open>?\<close>, \<open>*\<close>, \<open>+\<close>, \<open>*?\<close> and \<open>{n}\<close> on them, literal text, sequence, alternation, capturing
  groups that are not nested, one look-ahead and the anchors \<open>^\<close>, \<open>$\<close> and \<open>\Z\<close>.
  A matcher state is the number of characters consumed, the text still to read and the
  groups closed so far (group \<open>k\<close> is entry \<open>k - 1\<close>). \<open>ms r st\<close> lists every way of
  matching \<open>r\<close> from \<open>st\<close> in the order in which a backtracking matcher tries them:
  a greedy quantifier lists the longest repetition first, a lazy one the shortest.
  The match that \<open>re\<close> reports is the head of the list.
\<close>

datatype cc = Lit char | Rng char char | Space | Digit | Dot | DotAll

fun cc_ok :: "cc \<Rightarrow> char \<Rightarrow> bool" where
  "cc_ok (Lit a) c = (c = a)"
| "cc_ok (Rng a b) c = (a \<le> c \<and> c \<le> b)"
| "cc_ok Space c = isspace c"
| "cc_ok Digit c = isdigit c"
| "cc_ok Dot c = (c \<noteq> NL)"
| "cc_ok DotAll c = True"

datatype rx =
    Ch cc | Opt cc | Star cc | Plus cc | StarLazy cc | Times nat cc | Str string
  | Seq rx rx | Alt rx rx | Grp rx | Look rx | Bol | Eol | EndZ | Eps

type_synonym mstate = "nat \<times> string \<times> string list"

fun one :: "cc \<Rightarrow> mstate \<Rightarrow> mstate list" where
  "one c (p, [], g) = []"
| "one c (p, x # xs, g) = (if cc_ok c x then [(p + 1, xs, g)] else [])"

fun greedy :: "cc \<Rightarrow> nat \<Rightarrow> string \<Rightarrow> string list \<Rightarrow> mstate list" where
  "greedy c p [] g = [(p, [], g)]"
| "greedy c p (x # xs) g =
     (if cc_ok c x then greedy c (p + 1) xs g else []) @ [(p, x # xs, g)]"

fun lazy :: "cc \<Rightarrow> nat \<Rightarrow> string \<Rightarrow> string list \<Rightarrow> mstate list" where
  "lazy c p [] g = [(p, [], g)]"
| "lazy c p (x # xs) g =
     (p, x # xs, g) # (if cc_ok c x then lazy c (p + 1) xs g else [])"

fun rep_times :: "nat \<Rightarrow> cc \<Rightarrow> mstate \<Rightarrow> mstate list" where
  "rep_times 0 c st = [st]"
| "rep_times (Suc n) c st = concat (map (rep_times n c) (one c st))"

fun ms :: "rx \<Rightarrow> mstate \<Rightarrow> mstate list" where
  "ms (Ch c) st = one c st"
| "ms (Opt c) st = one c st @ [st]"
| "ms (Star c) (p, s, g) = greedy c p s g"
| "ms (Plus c) st = concat (map (\<lambda>(p, s, g). greedy c p s g) (one c st))"
| "ms (StarLazy c) (p, s, g) = lazy c p s g"
| "ms (Times n c) st = rep_times n c st"
| "ms (Str l) (p, s, g) =
     (if prefix l s then [(p + length l, drop (length l) s, g)] else [])"
| "ms (Seq a b) st = concat (map (ms b) (ms a st))"
| "ms (Alt a b) st = ms a st @ ms b st"
| "ms (Grp a) (p, s, g) =
     map (\<lambda>(p', s', g'). (p', s', g' @ [take (p' - p) s])) (ms a (p, s, g))"
| "ms (Look a) st = (if ms a st = [] then [] else [st])"
| "ms Bol (p, s, g) = (if p = 0 then [(p, s, g)] else [])"
| "ms Eol (p, s, g) = (if s = [] \<or> s = [NL] then [(p, s, g)] else [])"
| "ms EndZ (p, s, g) = (if s = [] then [(p, s, g)] else [])"
| "ms Eps st = [st]"

definition seq :: "rx list \<Rightarrow> rx" where
  "seq rs = foldr Seq rs Eps"

definition first :: "'a list \<Rightarrow> 'a option" where
  "first xs = (case xs of [] \<Rightarrow> None | x # _ \<Rightarrow> Some x)"

text \<open>\<open>re.match(r, s)\<close>: the match at position 0, if any.\<close>

definition re_match :: "rx \<Rightarrow> string \<Rightarrow> mstate option" where
  "re_match r s = first (ms r (0, s, []))"

text \<open>
  \<open>re.search(r, s)\<close>: the match at the leftmost position that has one, the end of the text
  included. The result is \<open>(m.start(), (m.end(), text after the match, groups))\<close>.
\<close>

fun search_from :: "rx \<Rightarrow> nat \<Rightarrow> string \<Rightarrow> (nat \<times> mstate) option" where
  "search_from r i [] = map_option (Pair i) (first (ms r (i, [], [])))"
| "search_from r i (x # xs) =
     (case first (ms r (i, x # xs, [])) of
        None \<Rightarrow> search_from r (i + 1) xs
      | Some st \<Rightarrow> Some (i, st))"

definition re_search :: "rx \<Rightarrow> string \<Rightarrow> (nat \<times> mstate) option" where
  "re_search r s = search_from r 0 s"

definition m_start :: "nat \<times> mstate \<Rightarrow> nat" where
  "m_start m = fst m"

definition m_end :: "nat \<times> mstate \<Rightarrow> nat" where
  "m_end m = fst (snd m)"

definition group :: "mstate \<Rightarrow> nat \<Rightarrow> string" where
  "group st k = snd (snd st) ! (k - 1)"

section \<open>The patterns of the scripts\<close>

text \<open>\<open>\d{4}-\d{2}-\d{2}\<close>\<close>

definition date_rx :: rx where
  "date_rx = seq [Times 4 Digit, Ch (Lit CHR ''-''), Times 2 Digit, Ch (Lit CHR ''-''),
     Times 2 Digit]"

text \<open>\<open>^-?\s*(\d{4}-\d{2}-\d{2}):?\s*(.+)$\<close>\<close>

definition plain_pattern :: rx where
  "plain_pattern = seq [Bol, Opt (Lit CHR ''-''), Star Space, Grp date_rx,
     Opt (Lit CHR '':''), Star Space, Grp (Plus Dot), Eol]"

text \<open>\<open>^-?\s*\*\*(\d{4}-\d{2}-\d{2})\*\*:?\s*(.+)$\<close>\<close>

definition emph_pattern :: rx where
  "emph_pattern = seq [Bol, Opt (Lit CHR ''-''), Star Space, Str ''**'', Grp date_rx,
     Str ''**'', Opt (Lit CHR '':''), Star Space, Grp (Plus Dot), Eol]"

definition date_patterns :: "rx list" where
  "date_patterns = [plain_pattern, emph_pattern]"

text \<open>
  \<open>## Recent Accomplishments\s*\n(.*?)(?=\n##|\Z)\<close> and
  \<open>## Development Work\s*\n(.*?)(?=\n##|\Z)\<close>, both with \<open>re.DOTALL\<close>: the pattern of a
  section with heading text \<open>h\<close>.
\<close>

definition section_rx :: "string \<Rightarrow> rx" where
  "section_rx h = seq [Str h, Star Space, Ch (Lit NL), Grp (StarLazy DotAll),
     Look (Alt (Str (NL # ''##'')) EndZ)]"

section \<open>Calendar dates\<close>

type_synonym date = "nat \<times> nat \<times> nat"

definition is_leap :: "nat \<Rightarrow> bool" where
  "is_leap y = (y mod 4 = 0 \<and> (y mod 100 \<noteq> 0 \<or> y mod 400 = 0))"

definition days_in_month :: "nat \<Rightarrow> nat \<Rightarrow> nat" where
  "days_in_month y m =
     (if m = 2 then (if is_leap y then 29 else 28)
      else if m \<in> {4, 6, 9, 11} then 30 else 31)"

definition valid_date :: "nat \<Rightarrow> nat \<Rightarrow> nat \<Rightarrow> bool" where
  "valid_date y m d =
     (1 \<le> y \<and> y \<le> 9999 \<and> 1 \<le> m \<and> m \<le> 12 \<and> 1 \<le> d \<and> d \<le> days_in_month y m)"

text \<open>\<open>int(s)\<close> on a group of digits (a blank before a one-digit day is skipped).\<close>

definition int_of :: "string \<Rightarrow> nat" where
  "int_of s = foldl (\<lambda>n c. 10 * n + (of_char c - 48)) 0 (filter isdigit s)"

text \<open>
  The expression that \<open>strptime\<close> builds from the format \<open>%Y-%m-%d\<close>:
  \<open>(\d\d\d\d)-(1[0-2]|0[1-9]|[1-9])-(3[01]|[12]\d|0[1-9]|[1-9]| [1-9])\<close>.
\<close>

definition strptime_rx :: rx where
  "strptime_rx = seq [Grp (Times 4 Digit), Ch (Lit CHR ''-''),
     Grp (Alt (Seq (Ch (Lit CHR ''1'')) (Ch (Rng CHR ''0'' CHR ''2'')))
         (Alt (Seq (Ch (Lit CHR ''0'')) (Ch (Rng CHR ''1'' CHR ''9'')))
              (Ch (Rng CHR ''1'' CHR ''9'')))),
     Ch (Lit CHR ''-''),
     Grp (Alt (Seq (Ch (Lit CHR ''3'')) (Ch (Rng CHR ''0'' CHR ''1'')))
         (Alt (Seq (Ch (Rng CHR ''1'' CHR ''2'')) (Ch Digit))
         (Alt (Seq (Ch (Lit CHR ''0'')) (Ch (Rng CHR ''1'' CHR ''9'')))
         (Alt (Ch (Rng CHR ''1'' CHR ''9''))
              (Seq (Ch (Lit CHR '' '')) (Ch (Rng CHR ''1'' CHR ''9'')))))))]"

text \<open>
  \<open>datetime.strptime(s, '%Y-%m-%d').date()\<close>; \<open>None\<close> stands for the \<open>ValueError\<close>
  (no match, unconverted data, or a day or year out of range).
\<close>

definition strptime_date :: "string \<Rightarrow> date option" where
  "strptime_date s =
     (case re_match strptime_rx s of
        None \<Rightarrow> None
      | Some st \<Rightarrow>
          if fst (snd st) \<noteq> [] then None
          else (let y = int_of (group st 1); m = int_of (group st 2); d = int_of (group st 3)
                in if valid_date y m d then Some (y, m, d) else None))"

section \<open>Extraction: \<open>parse-accomplishments.py\<close>\<close>

record accomplishment =
  project :: string
  date :: string
  content :: string
  details :: "string list"

text \<open>
  The state of the loop over the section's lines: the list \<open>accomplishments\<close> and
  \<open>current_entry\<close>, which is \<open>None\<close> or refers to one of the entries of the list (its index).
\<close>

type_synonym pstate = "accomplishment list \<times> nat option"

text \<open>The inner loop over \<open>date_patterns\<close>: the groups of the first pattern that matches.\<close>

fun match_patterns :: "rx list \<Rightarrow> string \<Rightarrow> (string \<times> string) option" where
  "match_patterns [] line = None"
| "match_patterns (pat # pats) line =
     (case re_match pat line of
        Some st \<Rightarrow> Some (group st 1, group st 2)
      | None \<Rightarrow> match_patterns pats line)"

definition match_date_line :: "string \<Rightarrow> (string \<times> string) option" where
  "match_date_line line = match_patterns date_patterns line"

text \<open>One iteration of \<open>for line in lines\<close>.\<close>

definition process_line :: "string \<Rightarrow> date \<Rightarrow> pstate \<Rightarrow> string \<Rightarrow> pstate" where
  "process_line project_name target_date st raw =
     (let line = strip raw; accs = fst st; current_entry = snd st in
      if line = [] \<or> prefix ''*'' line then st
      else
        (case match_date_line line of
           Some (entry_date_str, g2) \<Rightarrow>
             (let entry_content = strip g2 in
              case strptime_date entry_date_str of
                None \<Rightarrow> st
              | Some entry_date \<Rightarrow>
                  if entry_date = target_date
                  then (accs @ [\<lparr>project = project_name, date = entry_date_str,
                                  content = entry_content, details = []\<rparr>],
                        Some (length accs))
                  else (accs, None))
         | None \<Rightarrow>
             (case current_entry of
                None \<Rightarrow> st
              | Some i \<Rightarrow>
                  if prefix ''-'' line
                  then (let detail = strip (tl line) in
                        if detail \<noteq> []
                        then (accs[i := (accs ! i)\<lparr>details := details (accs ! i) @ [detail]\<rparr>],
                              current_entry)
                        else st)
                  else st)))"

definition process_lines :: "string \<Rightarrow> date \<Rightarrow> pstate \<Rightarrow> string list \<Rightarrow> pstate" where
  "process_lines project_name target_date st lines =
     foldl (process_line project_name target_date) st lines"

text \<open>Group 1 of the search for the section with heading \<open>h\<close>.\<close>

definition find_section :: "string \<Rightarrow> string \<Rightarrow> string option" where
  "find_section h txt = map_option (\<lambda>m. group (snd m) 1) (re_search (section_rx h) txt)"

text \<open>The body of \<open>parse_accomplishments\<close> once the file has been read.\<close>

definition parse_text :: "string \<Rightarrow> string \<Rightarrow> date \<Rightarrow> accomplishment list" where
  "parse_text project_name txt target_date =
     (case find_section ''## Recent Accomplishments'' txt of
        None \<Rightarrow> []
      | Some section_content \<Rightarrow>
          fst (process_lines project_name target_date ([], None) (split_nl section_content)))"

text \<open>
  Both scripts open their files in text mode (\<open>open(path, 'r')\<close>, \<open>open(path, 'w')\<close>).
  Reading translates the line ends \<open>\r\n\<close> and \<open>\r\<close> to \<open>\n\<close>; writing is taken as on a
  POSIX system, where \<open>\n\<close> is written as it is.
\<close>

definition CR :: char where
  "CR = CHR 0x0D"

fun universal_newlines :: "string \<Rightarrow> string" where
  "universal_newlines [] = []"
| "universal_newlines [c] = (if c = CR then [NL] else [c])"
| "universal_newlines (c # d # cs) =
     (if c = CR \<and> d = NL then NL # universal_newlines cs
      else if c = CR then NL # universal_newlines (d # cs)
      else c # universal_newlines (d # cs))"

text \<open>
  \<open>parse_accomplishments(file_path, target_date)\<close>: a path is its list of components, the
  project is the name of the file's directory, \<open>stored\<close> gives the text stored in a file,
  and a file that cannot be read (\<open>None\<close>) gives no entry.
\<close>

type_synonym path = "string list"

definition parse_accomplishments ::
  "(path \<Rightarrow> string option) \<Rightarrow> path \<Rightarrow> date \<Rightarrow> accomplishment list" where
  "parse_accomplishments stored file_path target_date =
     (case stored file_path of
        None \<Rightarrow> []
      | Some raw \<Rightarrow>
          parse_text (last (butlast file_path)) (universal_newlines raw) target_date)"

section \<open>Rendering and merging: \<open>update-obsidian-daily.py\<close>\<close>

text \<open>
  \<open>projects\<close> is a dictionary from project names to lists of entries; a dictionary keeps
  its keys in the order of their first insertion, so it is an association list here.
\<close>

fun projects_add ::
  "(string \<times> accomplishment list) list \<Rightarrow> accomplishment
     \<Rightarrow> (string \<times> accomplishment list) list" where
  "projects_add [] acc = [(project acc, [acc])]"
| "projects_add ((k, v) # ps) acc =
     (if k = project acc then (k, v @ [acc]) # ps else (k, v) # projects_add ps acc)"

definition entry_lines :: "accomplishment \<Rightarrow> string list" where
  "entry_lines acc = (''- '' @ content acc) # map (\<lambda>detail. ''  - '' @ detail) (details acc)"

definition project_lines :: "string \<times> accomplishment list \<Rightarrow> string list" where
  "project_lines pa =
     (''### [['' @ fst pa @ '']]'') # concat (map entry_lines (snd pa)) @ [[]]"

definition format_accomplishments_for_obsidian :: "accomplishment list \<Rightarrow> string" where
  "format_accomplishments_for_obsidian accomplishments =
     (if accomplishments = [] then ''No development accomplishments logged today.''
      else (let projects = foldl projects_add [] accomplishments;
                lines = concat (map project_lines (sort_key fst projects))
            in strip (join [NL] lines)))"

text \<open>
  Rendering as the specification words it: one block per distinct project, the projects in
  lexicographic order; a block is the project's heading line, then for each of its records
  (in their order) one line with the summary and one nested line per detail; consecutive
  blocks are separated by one blank line.
\<close>

definition spec_block :: "accomplishment list \<Rightarrow> string \<Rightarrow> string" where
  "spec_block records p =
     join [NL] ((''### [['' @ p @ '']]'') #
       concat (map (\<lambda>r. (''- '' @ content r) # map (\<lambda>d. ''  - '' @ d) (details r))
                   (filter (\<lambda>r. project r = p) records)))"

definition spec_render :: "accomplishment list \<Rightarrow> string" where
  "spec_render records =
     (if records = [] then ''No development accomplishments logged today.''
      else join [NL, NL] (map (spec_block records) (sort (remdups (map project records)))))"

definition section_header :: string where
  "section_header = ''## Development Work''"

definition full_section :: "string \<Rightarrow> string" where
  "full_section section_content = section_header @ [NL, NL] @ section_content"

text \<open>
  The new text of a daily note that exists, from its text and the rendered section body
  (the branch \<open>if daily_note_path.exists()\<close> of \<open>update_daily_note\<close>).
\<close>

definition merge_section :: "string \<Rightarrow> string \<Rightarrow> string" where
  "merge_section txt section_content =
     (case re_search (section_rx section_header) txt of
        Some m \<Rightarrow> take (m_start m) txt @ full_section section_content @ drop (m_end m) txt
      | None \<Rightarrow>
          (if suffix [NL] txt then txt else txt @ [NL]) @ [NL] @ full_section section_content)"

text \<open>Decimal numerals: \<open>{year}\<close> and \<open>{month:02d}\<close> of the path format.\<close>

fun digits :: "nat \<Rightarrow> nat \<Rightarrow> string" where
  "digits 0 n = []"
| "digits (Suc k) n =
     (if n < 10 then [char_of (48 + n)] else digits k (n div 10) @ [char_of (48 + n mod 10)])"

definition str_nat :: "nat \<Rightarrow> string" where
  "str_nat n = digits (Suc n) n"

definition pad2 :: "nat \<Rightarrow> string" where
  "pad2 n = (if n < 10 then CHR ''0'' # str_nat n else str_nat n)"

definition month_names :: "string list" where
  "month_names = [''January'', ''February'', ''March'', ''April'', ''May'', ''June'',
     ''July'', ''August'', ''September'', ''October'', ''November'', ''December'']"

definition day_names :: "string list" where
  "day_names = [''Monday'', ''Tuesday'', ''Wednesday'', ''Thursday'', ''Friday'',
     ''Saturday'', ''Sunday'']"

text \<open>\<open>date.toordinal()\<close> and \<open>date.weekday()\<close> (Monday is 0).\<close>

definition toordinal :: "date \<Rightarrow> nat" where
  "toordinal dt = (case dt of (y, m, d) \<Rightarrow>
     (y - 1) * 365 + (y - 1) div 4 - (y - 1) div 100 + (y - 1) div 400
       + sum_list (map (days_in_month y) [1..<m]) + d)"

definition weekday :: "date \<Rightarrow> nat" where
  "weekday dt = (toordinal dt + 6) mod 7"

text \<open>
  \<open>strftime('%Y-%m-%d')\<close> as the C library of a Linux system gives it: the year is not
  padded, month and day are on two digits.
\<close>

definition date_str :: "date \<Rightarrow> string" where
  "date_str dt = (case dt of (y, m, d) \<Rightarrow>
     str_nat y @ ''-'' @ pad2 m @ ''-'' @ pad2 d)"

text \<open>
  \<open>DAILY_NOTE_FORMAT\<close> filled in and joined to the vault path:
  \<open>Daily Notes/{year}/{month:02d}-{month_name}/{year}-{month:02d}-{day:02d}.md\<close>.
\<close>

definition get_daily_note_path :: "path \<Rightarrow> date \<Rightarrow> path" where
  "get_daily_note_path vault_path target_date = (case target_date of (y, m, d) \<Rightarrow>
     vault_path @ [''Daily Notes'', str_nat y, pad2 m @ ''-'' @ month_names ! (m - 1),
       str_nat y @ ''-'' @ pad2 m @ ''-'' @ pad2 d @ ''.md''])"

text \<open>The text of a daily note that is created.\<close>

definition new_note :: "date \<Rightarrow> string \<Rightarrow> string" where
  "new_note target_date section_content =
     join [NL] [''# '' @ date_str target_date @ '' - '' @ day_names ! weekday target_date,
       [], ''## Daily Review'', [], ''### What went well today?'', [], [],
       ''### What could be improved?'', [], [], ''### Tomorrow's priorities'', [], [],
       full_section section_content, [], ''## Meeting Notes'', [], [],
       ''## Other Notes'', [], []]"

text \<open>
  The file system: the regular files with the text stored in them, and the directories.
  The errors are those that the calls of the script raise on it.
\<close>

record world =
  files :: "path \<Rightarrow> string option"
  dirs :: "path set"

datatype error =
  ValueError | JSONDecodeError | FileExistsError | NotADirectoryError | IsADirectoryError

definition path_exists :: "world \<Rightarrow> path \<Rightarrow> bool" where
  "path_exists w p = (files w p \<noteq> None \<or> p \<in> dirs w)"

text \<open>
  \<open>p.mkdir(parents=True, exist_ok=True)\<close>: it fails where \<open>p\<close> is a regular file, and
  where a directory above \<open>p\<close> is one.
\<close>

definition mkdir_parents :: "path \<Rightarrow> world \<Rightarrow> error + world" where
  "mkdir_parents p w =
     (if files w p \<noteq> None then Inl FileExistsError
      else if list_ex (\<lambda>q. files w q \<noteq> None) (prefixes p) then Inl NotADirectoryError
      else Inr (w\<lparr>dirs := dirs w \<union> set (prefixes p)\<rparr>))"

definition write_file :: "path \<Rightarrow> string \<Rightarrow> world \<Rightarrow> world" where
  "write_file p txt w = w\<lparr>files := (files w)(p \<mapsto> txt)\<rparr>"

definition update_daily_note ::
  "path \<Rightarrow> accomplishment list \<Rightarrow> date \<Rightarrow> world \<Rightarrow> error + world" where
  "update_daily_note vault_path accomplishments target_date w =
     (let daily_note_path = get_daily_note_path vault_path target_date in
      case mkdir_parents (butlast daily_note_path) w of
        Inl e \<Rightarrow> Inl e
      | Inr w1 \<Rightarrow>
          (let section_content = format_accomplishments_for_obsidian accomplishments in
           if path_exists w1 daily_note_path
           then (case files w1 daily_note_path of
                   None \<Rightarrow> Inl IsADirectoryError
                 | Some raw \<Rightarrow>
                     Inr (write_file daily_note_path
                            (merge_section (universal_newlines raw) section_content) w1))
           else Inr (write_file daily_note_path (new_note target_date section_content) w1)))"

text \<open>
  The surroundings of a run: the command line, the environment variable, the file
  \<open>config.json\<close> beside the script (absent, not valid JSON, or an object with or without
  the key \<open>obsidian_vault_path\<close>), today's date, and the run of the extraction script as a
  subprocess, which returns the entries it found and the file system it leaves.
\<close>

datatype config_file = NoConfigFile | BadConfigFile | ConfigFile "path option"

record run_env =
  arg_date :: "string option"
  arg_vault :: "path option"
  env_vault :: "path option"
  config_json :: config_file
  today :: date
  run_accomplishment_parser :: "date \<Rightarrow> world \<Rightarrow> accomplishment list \<times> world"

datatype outcome = Exit nat | Raised error

definition default_vault :: path where
  "default_vault = [''/'', ''home'', ''jon'', ''obsidian-vault'']"

text \<open>
  The global \<open>OBSIDIAN_VAULT_PATH\<close> once \<open>main\<close> has applied \<open>--vault\<close>; an option given as
  the empty text counts as absent (\<open>if args.vault:\<close>, \<open>if args.date:\<close>).
\<close>

definition OBSIDIAN_VAULT_PATH :: "run_env \<Rightarrow> path" where
  "OBSIDIAN_VAULT_PATH e =
     (let from_env = (case env_vault e of Some v \<Rightarrow> v | None \<Rightarrow> default_vault) in
      case arg_vault e of
        Some v \<Rightarrow> if v = [] then from_env else v
      | None \<Rightarrow> from_env)"

definition get_config :: "run_env \<Rightarrow> error + path" where
  "get_config e =
     (case config_json e of
        NoConfigFile \<Rightarrow> Inr (OBSIDIAN_VAULT_PATH e)
      | BadConfigFile \<Rightarrow> Inl JSONDecodeError
      | ConfigFile None \<Rightarrow> Inr (OBSIDIAN_VAULT_PATH e)
      | ConfigFile (Some v) \<Rightarrow> Inr v)"

text \<open>\<open>main()\<close>: the outcome of the run and the file system it leaves.\<close>

definition main :: "run_env \<Rightarrow> world \<Rightarrow> outcome \<times> world" where
  "main e w =
     (case (case arg_date e of
              None \<Rightarrow> Some (today e)
            | Some s \<Rightarrow> if s = [] then Some (today e) else strptime_date s) of
        None \<Rightarrow> (Raised ValueError, w)
      | Some target_date \<Rightarrow>
          (case get_config e of
             Inl err \<Rightarrow> (Raised err, w)
           | Inr vault_path \<Rightarrow>
               if \<not> path_exists w vault_path then (Exit 1, w)
               else (case run_accomplishment_parser e target_date w of
                       (accomplishments, w1) \<Rightarrow>
                         (case update_daily_note vault_path accomplishments target_date w1 of
                            Inl err \<Rightarrow> (Raised err, w1)
                          | Inr w2 \<Rightarrow> (Exit 0, w2)))))"

section \<open>Notions used to state the properties\<close>

text \<open>
  The lines of an existing text, a final newline ending its last line, and the number of
  blank lines at the end of a list of lines.
\<close>

definition old_lines :: "string \<Rightarrow> string list" where
  "old_lines txt = (if suffix [NL] txt then butlast (split_nl txt) else split_nl txt)"

definition blank_run :: "string list \<Rightarrow> nat" where
  "blank_run ls = length (takeWhile (\<lambda>l. strip l = []) (rev ls))"


text \<open>
  The first \<open>n\<close> entries of the list are out of reach of the loop: \<open>current_entry\<close> is
  \<open>None\<close> or refers to an entry after them.
\<close>

definition frozen :: "nat \<Rightarrow> pstate \<Rightarrow> bool" where
  "frozen n st = (n \<le> length (fst st) \<and>
     (case snd st of None \<Rightarrow> True | Some i \<Rightarrow> n \<le> i))"

text \<open>
  What the two date patterns compute, written as functions on the line: the text after an
  optional \<open>-\<close> and white space (\<open>dash_ws\<close>), a date token at the head of a text
  (\<open>date_split\<close>), and the summary that \<open>:?\s*(.+)$\<close> leaves of the rest of a line
  (\<open>tail_direct\<close>). They are proved equal to the patterns below, for lines without a
  newline.
\<close>

definition date_ok :: "string \<Rightarrow> bool" where
  "date_ok s = (list_all isdigit (take 4 s) \<and> s ! 4 = CHR ''-''
     \<and> list_all isdigit (take 2 (drop 5 s)) \<and> s ! 7 = CHR ''-''
     \<and> list_all isdigit (take 2 (drop 8 s)))"

definition is_date_token :: "string \<Rightarrow> bool" where
  "is_date_token d = (length d = 10 \<and> date_ok d)"

definition date_split :: "string \<Rightarrow> (string \<times> string) option" where
  "date_split s = (if 10 \<le> length s \<and> date_ok s then Some (take 10 s, drop 10 s) else None)"

fun ws_then_rest :: "string \<Rightarrow> string option" where
  "ws_then_rest [] = None"
| "ws_then_rest (x # xs) =
     (if isspace x
      then (case ws_then_rest xs of Some u \<Rightarrow> Some u | None \<Rightarrow> Some (x # xs))
      else Some (x # xs))"

definition tail_direct :: "string \<Rightarrow> string option" where
  "tail_direct t =
     (case t of
        [] \<Rightarrow> None
      | x # xs \<Rightarrow>
          if x = CHR '':''
          then (case ws_then_rest xs of Some u \<Rightarrow> Some u | None \<Rightarrow> Some t)
          else ws_then_rest t)"

definition dash_ws :: "string \<Rightarrow> string" where
  "dash_ws line =
     dropWhile isspace (case line of [] \<Rightarrow> [] | x # xs \<Rightarrow> if x = CHR ''-'' then xs else line)"

definition plain_direct :: "string \<Rightarrow> (string \<times> string) option" where
  "plain_direct line =
     (case date_split (dash_ws line) of
        None \<Rightarrow> None
      | Some (d, t) \<Rightarrow> map_option (Pair d) (tail_direct t))"

definition emph_direct :: "string \<Rightarrow> (string \<times> string) option" where
  "emph_direct line =
     (if prefix ''**'' (dash_ws line)
      then (case date_split (drop 2 (dash_ws line)) of
              None \<Rightarrow> None
            | Some (d, t) \<Rightarrow>
                if prefix ''**'' t then map_option (Pair d) (tail_direct (drop 2 t)) else None)
      else None)"

text \<open>Every entry of the list has a summary that is not blank.\<close>

definition summaries_ok :: "pstate \<Rightarrow> bool" where
  "summaries_ok st = (\<forall>r\<in>set (fst st). strip (content r) \<noteq> [])"

text \<open>What identifies a record: its project, date and summary.\<close>

definition entry_key :: "accomplishment \<Rightarrow> string \<times> string \<times> string" where
  "entry_key r = (project r, date r, content r)"

text \<open>
  A record whose summary and details each end in a character that is not white space, as
  extraction produces them.
\<close>

definition tidy :: "accomplishment \<Rightarrow> bool" where
  "tidy r = (content r \<noteq> [] \<and> \<not> isspace (last (content r))
     \<and> (\<forall>d\<in>set (details r). d \<noteq> [] \<and> \<not> isspace (last d)))"

text \<open>
  The dictionary \<open>projects\<close> groups the records \<open>xs\<close>: its keys are the projects of \<open>xs\<close>,
  each once, and the value of a key is the list of the records of that project, in order.
\<close>

definition grouped :: "(string \<times> accomplishment list) list \<Rightarrow> accomplishment list \<Rightarrow> bool" where
  "grouped ps xs = (distinct (map fst ps) \<and> fst ` set ps = project ` set xs
     \<and> (\<forall>kv\<in>set ps. snd kv = filter (\<lambda>a. project a = fst kv) xs))"

text \<open>
  A line that is not empty and does not end in white space, and the lines of the block of
  one project: its heading and the lines of its records.
\<close>

definition good_line :: "string \<Rightarrow> bool" where
  "good_line l = (l \<noteq> [] \<and> \<not> isspace (last l))"

definition block :: "accomplishment list \<Rightarrow> string \<Rightarrow> string list" where
  "block xs k = (''### [['' @ k @ '']]'') # concat (map entry_lines (filter (\<lambda>a. project a = k) xs))"

text \<open>
  What the section pattern computes, written as functions on the text: after the heading,
  \<open>\s*\n\<close> ends at the last newline of the run of white space (\<open>ws_nl\<close> gives the text after
  it); the lazy group then runs to the first place where a newline and \<open>##\<close> follow, or to
  the end (\<open>until_heading\<close>); the search takes the first position where the heading text
  and such a newline are found (\<open>section_direct\<close> gives the text before the match, group 1
  and the text after the match). They are proved equal to the pattern below.
\<close>

fun ws_nl :: "string \<Rightarrow> string option" where
  "ws_nl [] = None"
| "ws_nl (x # xs) =
     (if isspace x
      then (case ws_nl xs of Some b \<Rightarrow> Some b | None \<Rightarrow> if x = NL then Some xs else None)
      else None)"

fun until_heading :: "string \<Rightarrow> string" where
  "until_heading [] = []"
| "until_heading (x # xs) =
     (if prefix (NL # ''##'') (x # xs) then [] else x # until_heading xs)"

definition section_at :: "string \<Rightarrow> string \<Rightarrow> (string \<times> string) option" where
  "section_at h s =
     (if prefix h s
      then (case ws_nl (drop (length h) s) of
              None \<Rightarrow> None
            | Some b \<Rightarrow> Some (until_heading b, drop (length (until_heading b)) b))
      else None)"

fun section_direct :: "string \<Rightarrow> string \<Rightarrow> (string \<times> string \<times> string) option" where
  "section_direct h [] = None"
| "section_direct h (x # xs) =
     (case section_at h (x # xs) of
        Some (u, r) \<Rightarrow> Some ([], u, r)
      | None \<Rightarrow> map_option (\<lambda>(pre, u, r). (x # pre, u, r)) (section_direct h xs))"

text \<open>
  The kinds of lines of a section, as the loop tells them apart: a skipped line (blank, or
  beginning with \<open>*\<close>); a date line, with the date that \<open>strptime\<close> reads from its token
  (\<open>line_date\<close> is \<open>None\<close> for every other line, and for a date line whose token is not a date
  of the calendar); a detail line (not a date line, beginning with \<open>-\<close>, with text after it).
  \<open>no_detail_before_date\<close> holds of a list of lines in which no detail line comes before
  the first line that has a date.
\<close>

definition skipped :: "string \<Rightarrow> bool" where
  "skipped l = (strip l = [] \<or> prefix ''*'' (strip l))"

definition line_date :: "string \<Rightarrow> date option" where
  "line_date l =
     (if skipped l then None
      else (case match_date_line (strip l) of
              None \<Rightarrow> None
            | Some (d, c) \<Rightarrow> strptime_date d))"

definition is_detail :: "string \<Rightarrow> bool" where
  "is_detail l = (\<not> skipped l \<and> match_date_line (strip l) = None
     \<and> prefix ''-'' (strip l) \<and> strip (tl (strip l)) \<noteq> [])"

fun no_detail_before_date :: "string list \<Rightarrow> bool" where
  "no_detail_before_date [] = True"
| "no_detail_before_date (l # ls) =
     (if line_date l \<noteq> None then True else \<not> is_detail l \<and> no_detail_before_date ls)"

section \<open>Splitting into lines\<close>

lemma split_nl_ne: "split_nl s \<noteq> []"
  by (induction s) (auto simp: Let_def)

lemma split_nl_append: "split_nl (a @ NL # b) = split_nl a @ split_nl b"
proof (induction a)
  case Nil
  show ?case by simp
next
  case (Cons c a)
  then show ?case
    using split_nl_ne [of a] by (cases "split_nl a") (auto simp: Let_def)
qed

lemma split_nl_snoc: "split_nl (a @ [NL]) = split_nl a @ [[]]"
  using split_nl_append [of a "[]"] by simp

section \<open>What the date patterns match\<close>

lemma first_simps [simp]:
  "first [] = None" "first (x # xs) = Some x"
  by (simp_all add: first_def)

lemma first_append: "first (xs @ ys) = (case first xs of Some x \<Rightarrow> Some x | None \<Rightarrow> first ys)"
  by (cases xs) simp_all

lemma ms_seq_Nil [simp]: "ms (seq []) st = [st]"
  by (simp add: seq_def)

lemma ms_seq_Cons: "ms (seq (r # rs)) st = concat (map (ms (seq rs)) (ms r st))"
  by (simp add: seq_def)

lemma one_eq: "one c (p, s, g) = (if s \<noteq> [] \<and> cc_ok c (hd s) then [(p + 1, tl s, g)] else [])"
  by (cases s) simp_all

lemma rep_times_eq:
  "rep_times n c (p, s, g) =
     (if n \<le> length s \<and> list_all (cc_ok c) (take n s) then [(p + n, drop n s, g)] else [])"
proof (induction n arbitrary: p s)
  case 0
  show ?case by simp
next
  case (Suc n)
  show ?case
  proof (cases s)
    case Nil
    then show ?thesis by simp
  next
    case (Cons x xs)
    then show ?thesis by (simp add: Suc)
  qed
qed

lemma cc_ok_eta [simp]: "cc_ok Digit = isdigit" "cc_ok Space = isspace"
  by (rule ext, simp)+

lemma ms_date_rx:
  "ms date_rx (p, s, g) =
     (if 10 \<le> length s \<and> date_ok s then [(p + 10, drop 10 s, g)] else [])"
proof (cases "10 \<le> length s")
  case False
  then show ?thesis
    by (auto simp add: date_rx_def ms_seq_Cons rep_times_eq one_eq)
next
  case True
  then show ?thesis
    by (auto simp add: date_rx_def ms_seq_Cons rep_times_eq one_eq date_ok_def
        hd_drop_conv_nth tl_drop drop_Suc[symmetric] cong: if_cong)
qed


lemma ms_Grp_date_rx:
  "ms (Grp date_rx) (p, s, g) =
     (case date_split s of None \<Rightarrow> [] | Some (d, t) \<Rightarrow> [(p + 10, t, g @ [d])])"
  by (simp add: ms_date_rx date_split_def)

text \<open>A greedy repetition followed by something that refuses what the class accepts.\<close>

lemma greedy_then_reject:
  assumes "\<And>p s g. s \<noteq> [] \<Longrightarrow> cc_ok c (hd s) \<Longrightarrow> F (p, s, g) = []"
  shows "concat (map F (greedy c p s g))
     = F (p + length (takeWhile (cc_ok c) s), dropWhile (cc_ok c) s, g)"
proof (induction s arbitrary: p)
  case Nil
  show ?case by simp
next
  case (Cons x xs)
  show ?case
  proof (cases "cc_ok c x")
    case True
    with assms [of "x # xs" p g] Cons [of "p + 1"] show ?thesis by simp
  next
    case False
    then show ?thesis by simp
  qed
qed

text \<open>A greedy repetition that can take the whole text, followed by something that wants the end.\<close>

lemma greedy_then_end:
  assumes "list_all (cc_ok c) s"
    and "\<And>p s' g. s' \<noteq> [] \<Longrightarrow> suffix s' s \<Longrightarrow> F (p, s', g) = []"
  shows "concat (map F (greedy c p s g)) = F (p + length s, [], g)"
  using assms
proof (induction s arbitrary: p)
  case Nil
  show ?case by simp
next
  case (Cons x xs)
  have r: "F (p, x # xs, g) = []"
    by (rule Cons.prems(2)) simp_all
  have "concat (map F (greedy c (p + 1) xs g)) = F (p + 1 + length xs, [], g)"
  proof (rule Cons.IH)
    show "list_all (cc_ok c) xs" using Cons.prems(1) by simp
  next
    fix q s' h assume "s' \<noteq> []" and "suffix s' xs"
    then show "F (q, s', h) = []"
      by (intro Cons.prems(2)) (auto simp: suffix_Cons)
  qed
  with r Cons.prems(1) show ?case by simp
qed


lemma ms_rest_line:
  assumes "NL \<notin> set s"
  shows "ms (seq [Grp (Plus Dot), Eol]) (p, s, g)
     = (if s = [] then [] else [(p + length s, [], g @ [s])])"
proof (cases s)
  case Nil
  then show ?thesis by (simp add: ms_seq_Cons)
next
  case (Cons x xs)
  let ?F = "\<lambda>st. ms (seq [Eol]) (case st of (p', s', g') \<Rightarrow> (p', s', g' @ [take (p' - p) s]))"
  from assms Cons have x: "x \<noteq> NL" and xs: "list_all (cc_ok Dot) xs"
    by (auto simp: list_all_iff)
  have rej: "\<And>q s' h. s' \<noteq> [] \<Longrightarrow> suffix s' xs \<Longrightarrow> ?F (q, s', h) = []"
  proof -
    fix q s' h assume ne: "s' \<noteq> []" and su: "suffix s' xs"
    from su assms Cons have "NL \<notin> set s'" by (auto simp: suffix_def)
    then have "s' \<noteq> [NL]" by auto
    with ne show "?F (q, s', h) = []" by (simp add: ms_seq_Cons)
  qed
  have "ms (seq [Grp (Plus Dot), Eol]) (p, s, g) = concat (map ?F (greedy Dot (p + 1) xs g))"
    using x Cons by (simp add: ms_seq_Cons map_concat comp_def)
  also have "\<dots> = ?F (p + 1 + length xs, [], g)"
    by (rule greedy_then_end [where F = ?F, OF xs rej])
  also have "\<dots> = [(p + length s, [], g @ [s])]"
    using Cons by (simp add: ms_seq_Cons)
  finally show ?thesis using Cons by simp
qed

lemma ms_ws_rest:
  assumes "NL \<notin> set t"
  shows "first (ms (seq [Star Space, Grp (Plus Dot), Eol]) (p, t, g))
     = map_option (\<lambda>u. (p + length t, [], g @ [u])) (ws_then_rest t)"
  using assms
proof (induction t arbitrary: p)
  case Nil
  show ?case by (simp add: ms_seq_Cons [of "Star Space"] ms_rest_line)
next
  case (Cons x xs)
  from Cons.prems have nl: "NL \<notin> set xs" and nlx: "NL \<notin> set (x # xs)" by simp_all
  have here: "ms (seq [Grp (Plus Dot), Eol]) (p, x # xs, g)
      = [(p + length (x # xs), [], g @ [x # xs])]"
    using ms_rest_line [OF nlx] by simp
  show ?case
  proof (cases "isspace x")
    case True
    have "ms (seq [Star Space, Grp (Plus Dot), Eol]) (p, x # xs, g)
        = ms (seq [Star Space, Grp (Plus Dot), Eol]) (p + 1, xs, g)
          @ ms (seq [Grp (Plus Dot), Eol]) (p, x # xs, g)"
      using True by (simp add: ms_seq_Cons [of "Star Space"])
    then show ?thesis
      using True Cons.IH [OF nl, of "p + 1"] here
      by (simp add: first_append split: option.splits)
  next
    case False
    then show ?thesis
      using here by (simp add: ms_seq_Cons [of "Star Space"])
  qed
qed

lemma not_space_chars [simp]:
  "\<not> isspace CHR '':''" "\<not> isspace CHR ''-''" "\<not> isspace CHR ''*''" "\<not> isspace CHR ''#''"
  "isspace NL"
  by (simp_all add: isspace_def NL_def)

lemma digit_not_space: "isdigit c \<Longrightarrow> \<not> isspace c"
  by (auto simp: isdigit_def isspace_def Let_def)

lemma not_digit_chars [simp]:
  "\<not> isdigit CHR ''-''" "\<not> isdigit CHR ''*''" "\<not> isdigit CHR '':''"
  by (simp_all add: isdigit_def)

lemma ms_tail:
  assumes "NL \<notin> set t"
  shows "first (ms (seq [Opt (Lit CHR '':''), Star Space, Grp (Plus Dot), Eol]) (p, t, g))
     = map_option (\<lambda>u. (p + length t, [], g @ [u])) (tail_direct t)"
proof (cases t)
  case Nil
  then show ?thesis
    using ms_ws_rest [of "[]" p g]
    by (simp add: ms_seq_Cons [of "Opt (Lit CHR '':'')"] tail_direct_def)
next
  case (Cons x xs)
  with assms have nl: "NL \<notin> set xs" by simp
  show ?thesis
  proof (cases "x = CHR '':''")
    case True
    have "ms (seq [Opt (Lit CHR '':''), Star Space, Grp (Plus Dot), Eol]) (p, t, g)
        = ms (seq [Star Space, Grp (Plus Dot), Eol]) (p + 1, xs, g)
          @ ms (seq [Star Space, Grp (Plus Dot), Eol]) (p, t, g)"
      using True Cons by (simp add: ms_seq_Cons [of "Opt (Lit CHR '':'')"])
    then show ?thesis
      using True Cons ms_ws_rest [OF nl, of "p + 1" g] ms_ws_rest [OF assms, of p g]
      by (simp add: first_append tail_direct_def split: option.splits)
  next
    case False
    have "ms (seq [Opt (Lit CHR '':''), Star Space, Grp (Plus Dot), Eol]) (p, t, g)
        = ms (seq [Star Space, Grp (Plus Dot), Eol]) (p, t, g)"
      using False Cons by (simp add: ms_seq_Cons [of "Opt (Lit CHR '':'')"])
    then show ?thesis
      using False Cons ms_ws_rest [OF assms, of p g]
      by (simp add: tail_direct_def)
  qed
qed


lemma date_split_hd_digit: "date_split s = Some (d, t) \<Longrightarrow> s \<noteq> [] \<and> isdigit (hd s)"
  by (cases s) (auto simp: date_split_def date_ok_def split: if_splits)

lemma date_split_reject:
  "s \<noteq> [] \<Longrightarrow> \<not> isdigit (hd s) \<Longrightarrow> date_split s = None"
  using date_split_hd_digit [of s] by (cases "date_split s") auto

lemma date_split_length: "date_split s = Some (d, t) \<Longrightarrow> s = d @ t \<and> length d = 10"
  by (auto simp: date_split_def split: if_splits)

text \<open>The part of a date pattern before the date: \<open>^-?\s*\<close>.\<close>

lemma ms_dash_ws:
  assumes "\<And>p s g. s \<noteq> [] \<Longrightarrow> isspace (hd s) \<or> hd s = CHR ''-'' \<Longrightarrow> ms (seq rs) (p, s, g) = []"
  shows "ms (seq (Bol # Opt (Lit CHR ''-'') # Star Space # rs)) (0, line, [])
     = ms (seq rs) (length line - length (dash_ws line), dash_ws line, [])"
proof -
  let ?F = "ms (seq rs)"
  have rej: "\<And>p s g. s \<noteq> [] \<Longrightarrow> cc_ok Space (hd s) \<Longrightarrow> ?F (p, s, g) = []"
    using assms by simp
  have star: "\<And>p s g. ms (seq (Star Space # rs)) (p, s, g)
      = ?F (p + length (takeWhile isspace s), dropWhile isspace s, g)"
    using greedy_then_reject [where F = ?F and c = Space, OF rej]
    by (simp add: ms_seq_Cons [of "Star Space"])
  have len: "\<And>s. length (takeWhile isspace s) = length s - length (dropWhile isspace s)"
    by (metis add_diff_cancel_right' length_append takeWhile_dropWhile_id)
  show ?thesis
  proof (cases line)
    case Nil
    then show ?thesis
      by (simp add: ms_seq_Cons [of Bol] ms_seq_Cons [of "Opt (Lit CHR ''-'')"] star dash_ws_def)
  next
    case (Cons x xs)
    show ?thesis
    proof (cases "x = CHR ''-''")
      case True
      have "ms (seq (Star Space # rs)) (0, line, []) = []"
        using True Cons assms [of line 0 "[]"] by (simp add: star)
      then show ?thesis
        using True Cons len [of xs] length_dropWhile_le [of isspace xs]
        by (simp add: ms_seq_Cons [of Bol] ms_seq_Cons [of "Opt (Lit CHR ''-'')"] star
            dash_ws_def Suc_diff_le)
    next
      case False
      then show ?thesis
        using Cons len [of line]
        by (simp add: ms_seq_Cons [of Bol] ms_seq_Cons [of "Opt (Lit CHR ''-'')"] star
            dash_ws_def)
    qed
  qed
qed

lemma re_match_plain:
  assumes "NL \<notin> set line"
  shows "re_match plain_pattern line
     = map_option (\<lambda>(d, u). (length line, [], [d, u])) (plain_direct line)"
proof -
  let ?rs = "[Grp date_rx, Opt (Lit CHR '':''), Star Space, Grp (Plus Dot), Eol]"
  have rej: "\<And>p s g. s \<noteq> [] \<Longrightarrow> isspace (hd s) \<or> hd s = CHR ''-'' \<Longrightarrow> ms (seq ?rs) (p, s, g) = []"
  proof -
    fix p s g assume "s \<noteq> []" and "isspace (hd s) \<or> hd s = CHR ''-''"
    then have "date_split s = None"
      using digit_not_space [of "hd s"] by (intro date_split_reject) auto
    then show "ms (seq ?rs) (p, s, g) = []"
      by (simp add: ms_seq_Cons [of "Grp date_rx"] ms_Grp_date_rx del: ms.simps)
  qed
  have e: "ms plain_pattern (0, line, [])
      = ms (seq ?rs) (length line - length (dash_ws line), dash_ws line, [])"
    unfolding plain_pattern_def by (rule ms_dash_ws [OF rej])
  have suf: "suffix (dash_ws line) line"
    by (cases line) (auto simp: dash_ws_def suffix_dropWhile intro: suffix_order.trans [OF suffix_dropWhile] suffix_ConsI)
  show ?thesis
  proof (cases "date_split (dash_ws line)")
    case None
    then show ?thesis
      by (simp add: re_match_def e ms_seq_Cons [of "Grp date_rx"] ms_Grp_date_rx plain_direct_def
          del: ms.simps)
  next
    case (Some dt)
    obtain d t where dt: "dt = (d, t)" by (cases dt)
    from Some dt date_split_length [of "dash_ws line" d t]
    have sp: "dash_ws line = d @ t" and ld: "length d = 10" by simp_all
    from suf sp assms have nl: "NL \<notin> set t" by (auto simp: suffix_def)
    from suf sp have le: "length line - length (dash_ws line) + 10 + length t = length line"
      using ld by (auto simp: suffix_def)
    show ?thesis
      using Some dt ms_tail [OF nl, of "length line - length (dash_ws line) + 10" "[d]"] le
      by (simp add: re_match_def e ms_seq_Cons [of "Grp date_rx"] ms_Grp_date_rx plain_direct_def
          option.map_comp comp_def del: ms.simps)
  qed
qed


lemma dash_ws_suffix: "suffix (dash_ws line) line"
  by (cases line)
    (auto simp: dash_ws_def suffix_dropWhile
      intro: suffix_order.trans [OF suffix_dropWhile] suffix_ConsI)

lemma re_match_emph:
  assumes "NL \<notin> set line"
  shows "re_match emph_pattern line
     = map_option (\<lambda>(d, u). (length line, [], [d, u])) (emph_direct line)"
proof -
  let ?tl = "[Opt (Lit CHR '':''), Star Space, Grp (Plus Dot), Eol]"
  let ?rs = "Str ''**'' # Grp date_rx # Str ''**'' # ?tl"
  let ?k = "length line - length (dash_ws line)"
  have rej: "\<And>p s g. s \<noteq> [] \<Longrightarrow> isspace (hd s) \<or> hd s = CHR ''-'' \<Longrightarrow> ms (seq ?rs) (p, s, g) = []"
  proof -
    fix p :: nat and s :: "char list" and g :: "char list list" assume "s \<noteq> []" and "isspace (hd s) \<or> hd s = CHR ''-''"
    then have "\<not> prefix ''**'' s" by (cases s) auto
    then show "ms (seq ?rs) (p, s, g) = []"
      by (simp add: ms_seq_Cons [of "Str ''**''"])
  qed
  have e: "ms emph_pattern (0, line, []) = ms (seq ?rs) (?k, dash_ws line, [])"
    unfolding emph_pattern_def by (rule ms_dash_ws [OF rej])
  note suf = dash_ws_suffix [of line]
  show ?thesis
  proof (cases "prefix ''**'' (dash_ws line)")
    case False
    then show ?thesis
      by (simp add: re_match_def e ms_seq_Cons [of "Str ''**''"] emph_direct_def)
  next
    case True
    then obtain s3 where s3: "dash_ws line = ''**'' @ s3" by (auto simp: prefix_def)
    have e2: "ms emph_pattern (0, line, [])
        = ms (seq (Grp date_rx # Str ''**'' # ?tl)) (?k + 2, s3, [])"
      using s3 by (simp add: e ms_seq_Cons [of "Str ''**''"])
    show ?thesis
    proof (cases "date_split s3")
      case None
      then show ?thesis
        using s3
        by (simp add: re_match_def e2 ms_seq_Cons [of "Grp date_rx"] ms_Grp_date_rx
            emph_direct_def del: ms.simps)
    next
      case (Some dt)
      obtain d t where dt: "dt = (d, t)" by (cases dt)
      from Some dt date_split_length [of s3 d t]
      have sp: "s3 = d @ t" and ld: "length d = 10" by simp_all
      have e3: "ms emph_pattern (0, line, []) = ms (seq (Str ''**'' # ?tl)) (?k + 12, t, [d])"
        using Some dt
        by (simp add: e2 ms_seq_Cons [of "Grp date_rx"] ms_Grp_date_rx ac_simps del: ms.simps)
      show ?thesis
      proof (cases "prefix ''**'' t")
        case False
        then show ?thesis
          using s3 Some dt
          by (simp add: re_match_def e3 ms_seq_Cons [of "Str ''**''"] emph_direct_def)
      next
        case True
        then obtain t2 where t2: "t = ''**'' @ t2" by (auto simp: prefix_def)
        from suf s3 sp t2 assms have nl: "NL \<notin> set t2" by (auto simp: suffix_def)
        from suf s3 sp t2 ld have le: "?k + 14 + length t2 = length line"
          by (auto simp: suffix_def)
        have e4: "ms emph_pattern (0, line, []) = ms (seq ?tl) (?k + 14, t2, [d])"
          using t2 by (simp add: e3 ms_seq_Cons [of "Str ''**''"] ac_simps)
        show ?thesis
          using s3 Some dt t2 ms_tail [OF nl, of "?k + 14" "[d]"] le
          by (simp add: re_match_def e4 emph_direct_def option.map_comp comp_def ac_simps)
      qed
    qed
  qed
qed

lemma match_date_line_direct:
  assumes "NL \<notin> set line"
  shows "match_date_line line
     = (case plain_direct line of Some r \<Rightarrow> Some r | None \<Rightarrow> emph_direct line)"
  by (cases "plain_direct line"; cases "emph_direct line")
    (auto simp: match_date_line_def date_patterns_def re_match_plain [OF assms]
      re_match_emph [OF assms] group_def)

section \<open>Stripping\<close>

lemma strip_Nil [simp]: "strip [] = []"
  by (simp add: strip_def)

lemma set_strip: "set (strip s) \<subseteq> set s"
proof -
  have "set (strip s) \<subseteq> set (dropWhile isspace s)"
    unfolding strip_def using set_dropWhileD [of _ isspace "rev (dropWhile isspace s)"]
    by auto
  also have "\<dots> \<subseteq> set s"
    using set_dropWhileD [of _ isspace s] by auto
  finally show ?thesis .
qed

lemma strip_ends:
  assumes "strip s \<noteq> []"
  shows "\<not> isspace (hd (strip s))" and "\<not> isspace (last (strip s))"
proof -
  let ?d = "dropWhile isspace s"
  let ?r = "dropWhile isspace (rev ?d)"
  from assms have r: "?r \<noteq> []" by (simp add: strip_def)
  have d: "?d \<noteq> []"
  proof
    assume "?d = []"
    with r show False by simp
  qed
  from r have "\<not> isspace (hd ?r)" by (rule hd_dropWhile)
  then show "\<not> isspace (last (strip s))"
    using r by (simp add: strip_def last_rev)
  from d have hd: "\<not> isspace (hd ?d)" by (rule hd_dropWhile)
  obtain k where k: "?r = drop k (rev ?d)"
    by (metis dropWhile_eq_drop)
  have "hd (rev ?r) = last ?r" using r by (simp add: hd_rev)
  also have "\<dots> = last (rev ?d)" using r k by (metis last_drop drop_eq_Nil not_le)
  also have "\<dots> = hd ?d" using d by (simp add: last_rev)
  finally show "\<not> isspace (hd (strip s))" using hd by (simp add: strip_def)
qed

lemma strip_eq_Nil_iff: "strip s = [] \<longleftrightarrow> (\<forall>c\<in>set s. isspace c)"
proof -
  let ?d = "dropWhile isspace s"
  have "strip s = [] \<longleftrightarrow> (\<forall>x\<in>set ?d. isspace x)"
    by (simp add: strip_def dropWhile_eq_Nil_conv)
  also have "\<dots> \<longleftrightarrow> ?d = []"
  proof
    assume a: "\<forall>x\<in>set ?d. isspace x"
    show "?d = []"
    proof (rule ccontr)
      assume n: "?d \<noteq> []"
      then have "\<not> isspace (hd ?d)" by (rule hd_dropWhile)
      with a n show False by (meson hd_in_set)
    qed
  qed (auto dest: set_dropWhileD)
  also have "\<dots> \<longleftrightarrow> (\<forall>c\<in>set s. isspace c)"
    by (simp add: dropWhile_eq_Nil_conv)
  finally show ?thesis .
qed

lemma strip_id:
  assumes "s \<noteq> []" and "\<not> isspace (hd s)" and "\<not> isspace (last s)"
  shows "strip s = s"
proof -
  from assms(1,2) have d: "dropWhile isspace s = s" by (cases s) auto
  from assms(1,3) have "dropWhile isspace (rev s) = rev s"
    by (cases "rev s") (auto simp: last_rev [symmetric] hd_rev)
  with d show ?thesis by (simp add: strip_def)
qed

lemma strip_strip [simp]: "strip (strip s) = strip s"
  by (cases "strip s = []") (simp_all add: strip_id strip_ends)

lemma strip_ws_prefix:
  assumes "list_all isspace ws"
  shows "strip (ws @ s) = strip s"
proof -
  from assms have "dropWhile isspace (ws @ s) = dropWhile isspace s"
    by (induction ws) auto
  then show ?thesis by (simp add: strip_def)
qed

lemma split_nl_no_NL: "l \<in> set (split_nl s) \<Longrightarrow> NL \<notin> set l"
proof (induction s arbitrary: l)
  case Nil
  then show ?case by simp
next
  case (Cons c cs)
  obtain a as where sp: "split_nl cs = a # as"
    using split_nl_ne [of cs] by (cases "split_nl cs") auto
  from Cons.IH [of a] sp have a: "NL \<notin> set a" by simp
  from Cons.IH sp have as: "\<And>x. x \<in> set as \<Longrightarrow> NL \<notin> set x" by simp
  from Cons.prems sp a as Cons.IH show ?case
    by (auto simp: Let_def split: if_splits)
qed

section \<open>The summary of a date line\<close>

lemma ws_then_rest_Some:
  "ws_then_rest t = Some u \<Longrightarrow> u \<noteq> [] \<and> suffix u t"
proof (induction t arbitrary: u)
  case Nil
  then show ?case by simp
next
  case (Cons x xs)
  then show ?case
    by (auto split: if_splits option.splits intro: suffix_ConsI)
qed

lemma ws_then_rest_nonspace:
  "t \<noteq> [] \<Longrightarrow> \<not> isspace (hd t) \<Longrightarrow> ws_then_rest t = Some t"
  by (cases t) auto

lemma ws_then_rest_ws:
  "list_all isspace ws \<Longrightarrow> s \<noteq> [] \<Longrightarrow> \<not> isspace (hd s) \<Longrightarrow> ws_then_rest (ws @ s) = Some s"
  by (induction ws) (auto simp: ws_then_rest_nonspace)

lemma tail_direct_Some:
  "tail_direct t = Some u \<Longrightarrow> u \<noteq> [] \<and> suffix u t"
  by (cases t)
    (auto simp: tail_direct_def split: if_splits option.splits
      dest!: ws_then_rest_Some intro: suffix_ConsI)

lemma plain_direct_Some:
  "plain_direct line = Some (d, u) \<Longrightarrow> u \<noteq> [] \<and> suffix u line"
proof -
  assume a: "plain_direct line = Some (d, u)"
  then obtain t where ds: "date_split (dash_ws line) = Some (d, t)" and td: "tail_direct t = Some u"
    by (auto simp: plain_direct_def split: option.splits)
  from date_split_length [OF ds] have "suffix t (dash_ws line)" by (auto simp: suffix_def)
  with tail_direct_Some [OF td] dash_ws_suffix [of line] show ?thesis
    by (auto intro: suffix_order.trans)
qed

lemma emph_direct_Some:
  "emph_direct line = Some (d, u) \<Longrightarrow> u \<noteq> [] \<and> suffix u line"
proof -
  assume a: "emph_direct line = Some (d, u)"
  then obtain t where ds: "date_split (drop 2 (dash_ws line)) = Some (d, t)"
    and td: "tail_direct (drop 2 t) = Some u"
    by (auto simp: emph_direct_def split: option.splits if_splits)
  from date_split_length [OF ds] have "suffix t (drop 2 (dash_ws line))" by (auto simp: suffix_def)
  then have "suffix (drop 2 t) (dash_ws line)"
    by (meson suffix_drop suffix_order.trans)
  with tail_direct_Some [OF td] dash_ws_suffix [of line] show ?thesis
    by (auto intro: suffix_order.trans)
qed

lemma match_date_line_Some:
  assumes "NL \<notin> set line" and "match_date_line line = Some (d, u)"
  shows "u \<noteq> [] \<and> suffix u line"
  using assms(2) plain_direct_Some [of line d u] emph_direct_Some [of line d u]
  by (auto simp: match_date_line_direct [OF assms(1)] split: option.splits)

lemma match_date_line_summary:
  assumes "NL \<notin> set raw" and "match_date_line (strip raw) = Some (d, u)"
  shows "strip u \<noteq> []"
proof -
  from assms(1) set_strip [of raw] have nl: "NL \<notin> set (strip raw)" by auto
  from match_date_line_Some [OF nl assms(2)] have u: "u \<noteq> []" and su: "suffix u (strip raw)"
    by simp_all
  then have ne: "strip raw \<noteq> []" by (auto simp: suffix_def)
  from su u have "last u = last (strip raw)" by (auto simp: suffix_def)
  with strip_ends(2) [OF ne] have "\<not> isspace (last u)" by simp
  with u have "\<exists>c\<in>set u. \<not> isspace c" by (meson last_in_set)
  then show ?thesis by (simp add: strip_eq_Nil_iff)
qed

section \<open>The loop over the lines of a section\<close>

lemma process_lines_append:
  "process_lines p t st (xs @ ys) = process_lines p t (process_lines p t st xs) ys"
  by (simp add: process_lines_def)

lemma process_lines_Cons:
  "process_lines p t st (l # ls) = process_lines p t (process_line p t st l) ls"
  by (simp add: process_lines_def)

lemma process_lines_Nil: "process_lines p t st [] = st"
  by (simp add: process_lines_def)

lemma process_line_frozen:
  assumes "frozen n st"
  shows "frozen n (process_line p t st l)
    \<and> take n (fst (process_line p t st l)) = take n (fst st)"
  using assms
  by (cases st) (auto simp: process_line_def frozen_def Let_def split: option.splits)

lemma process_lines_frozen:
  "frozen n st \<Longrightarrow> take n (fst (process_lines p t st ls)) = take n (fst st)"
proof (induction ls arbitrary: st)
  case Nil
  show ?case by (simp add: process_lines_def)
next
  case (Cons l ls)
  from process_line_frozen [OF Cons.prems, of p t l]
  have f: "frozen n (process_line p t st l)"
    and e: "take n (fst (process_line p t st l)) = take n (fst st)" by simp_all
  from Cons.IH [OF f] e show ?case by (simp add: process_lines_Cons)
qed

text \<open>A line that is not skipped, has a date shape and a date of the calendar.\<close>

lemma date_line_step:
  assumes "strip l \<noteq> []" and "\<not> prefix ''*'' (strip l)"
    and "match_date_line (strip l) = Some (d, c)" and "strptime_date d = Some dt"
  shows "process_line p t st l =
     (if dt = t then (fst st @ [\<lparr>project = p, date = d, content = strip c, details = []\<rparr>],
                      Some (length (fst st)))
      else (fst st, None))"
  using assms by (simp add: process_line_def Let_def)

section \<open>Summaries are not blank\<close>

lemma process_line_summaries:
  assumes "NL \<notin> set raw" and "summaries_ok st"
  shows "summaries_ok (process_line p t st raw)"
proof -
  obtain accs cur where st: "st = (accs, cur)" by (cases st)
  have upd: "\<And>i d. \<forall>r\<in>set (accs[i := (accs ! i)\<lparr>details := d\<rparr>]). strip (content r) \<noteq> []"
  proof
    fix i d r assume r: "r \<in> set (accs[i := (accs ! i)\<lparr>details := d\<rparr>])"
    show "strip (content r) \<noteq> []"
    proof (cases "i < length accs")
      case True
      from r set_update_subset_insert [of accs i] have "r = (accs ! i)\<lparr>details := d\<rparr> \<or> r \<in> set accs"
        by auto
      with True assms(2) st show ?thesis by (auto simp: summaries_ok_def)
    next
      case False
      then have le: "length accs \<le> i" by simp
      have "accs[i := (accs ! i)\<lparr>details := d\<rparr>] = accs"
        by (rule list_update_beyond [OF le])
      with r assms(2) st show ?thesis by (simp add: summaries_ok_def)
    qed
  qed
  show ?thesis
    using assms(2) st upd match_date_line_summary [OF assms(1)]
    by (auto simp: process_line_def summaries_ok_def Let_def split: option.splits)
qed

lemma process_lines_summaries:
  assumes "\<forall>l\<in>set ls. NL \<notin> set l" and "summaries_ok st"
  shows "summaries_ok (process_lines p t st ls)"
  using assms
proof (induction ls arbitrary: st)
  case Nil
  then show ?case by (simp add: process_lines_Nil)
next
  case (Cons l ls)
  from Cons.prems have "summaries_ok (process_line p t st l)"
    by (intro process_line_summaries) simp_all
  with Cons show ?case by (simp add: process_lines_Cons)
qed

section \<open>Lines of a known shape\<close>

lemma is_date_token_ends:
  assumes "is_date_token d"
  shows "d \<noteq> []" and "isdigit (hd d)" and "isdigit (last d)"
proof -
  from assms have l: "length d = 10" and ok: "date_ok d" by (simp_all add: is_date_token_def)
  from l show ne: "d \<noteq> []" by auto
  from ok l have "isdigit (take 4 d ! 0)"
    unfolding date_ok_def list_all_length by simp
  with l ne show "isdigit (hd d)" by (simp add: hd_conv_nth)
  from ok l have "\<forall>n<2. isdigit (take 2 (drop 8 d) ! n)"
    unfolding date_ok_def list_all_length by simp
  then have "isdigit (take 2 (drop 8 d) ! 1)" by simp
  with l ne show "isdigit (last d)" by (simp add: last_conv_nth)
qed

lemma date_split_token:
  assumes "is_date_token d"
  shows "date_split (d @ t) = Some (d, t)"
  using assms by (auto simp add: date_split_def is_date_token_def date_ok_def nth_append)

lemma dash_ws_eq:
  assumes "dash = [] \<or> dash = ''-''" and "list_all isspace ws"
    and "k \<noteq> []" and "\<not> isspace (hd k)" and "hd k \<noteq> CHR ''-''"
  shows "dash_ws (dash @ ws @ k) = k"
proof -
  from assms(2-4) have d: "dropWhile isspace (ws @ k) = k"
    by (induction ws) (auto simp: neq_Nil_conv)
  have h: "ws @ k \<noteq> [] \<and> hd (ws @ k) \<noteq> CHR ''-''"
    using assms(2,3,5) by (cases ws) auto
  from assms(1) show ?thesis
  proof
    assume "dash = []"
    with h d show ?thesis by (cases "ws @ k") (auto simp: dash_ws_def)
  next
    assume "dash = ''-''"
    with d show ?thesis by (simp add: dash_ws_def)
  qed
qed

text \<open>A date token, plain or between \<open>**\<close>, with nothing after it.\<close>

lemma bare_date_no_match:
  assumes "dash = [] \<or> dash = ''-''" and "list_all isspace ws" and "is_date_token d"
    and "k = d \<or> k = ''**'' @ d @ ''**''" and "NL \<notin> set (dash @ ws @ k)"
  shows "match_date_line (dash @ ws @ k) = None"
proof -
  note e = is_date_token_ends [OF assms(3)]
  from assms(4) e have k: "k \<noteq> []" "\<not> isspace (hd k)" "hd k \<noteq> CHR ''-''"
    using digit_not_space [of "hd d"] by auto
  have dw: "dash_ws (dash @ ws @ k) = k"
    by (rule dash_ws_eq [OF assms(1,2) k])
  have "\<not> prefix ''**'' d" using e by (cases d) auto
  moreover have "date_split (''**'' @ d @ ''**'') = None"
    by (rule date_split_reject) simp_all
  ultimately have "plain_direct (dash @ ws @ k) = None \<and> emph_direct (dash @ ws @ k) = None"
    using assms(4) date_split_token [OF assms(3), of "[]"] date_split_token [OF assms(3), of "''**''"]
    by (auto simp: plain_direct_def emph_direct_def dw tail_direct_def)
  then show ?thesis
    using match_date_line_direct [OF assms(5)] by simp
qed

text \<open>A line \<open>- DATE: summary\<close> and a line \<open>- **DATE**: summary\<close>.\<close>

lemma plain_line_match:
  assumes "list_all isspace ws1" and "list_all isspace ws2" and "is_date_token d"
    and "S \<noteq> []" and "\<not> isspace (hd S)"
    and "NL \<notin> set (''-'' @ ws1 @ d @ '':'' @ ws2 @ S)"
  shows "match_date_line (''-'' @ ws1 @ d @ '':'' @ ws2 @ S) = Some (d, S)"
proof -
  note e = is_date_token_ends [OF assms(3)]
  have dw: "dash_ws (''-'' @ ws1 @ (d @ '':'' @ ws2 @ S)) = d @ '':'' @ ws2 @ S"
    using e digit_not_space [of "hd d"] by (intro dash_ws_eq assms(1)) auto
  have "plain_direct (''-'' @ ws1 @ d @ '':'' @ ws2 @ S) = Some (d, S)"
    using dw date_split_token [OF assms(3), of "'':'' @ ws2 @ S"]
      ws_then_rest_ws [OF assms(2,4,5)]
    by (simp add: plain_direct_def tail_direct_def)
  then show ?thesis
    using match_date_line_direct [OF assms(6)] by simp
qed

lemma emph_line_match:
  assumes "list_all isspace ws1" and "list_all isspace ws2" and "is_date_token d"
    and "S \<noteq> []" and "\<not> isspace (hd S)"
    and "NL \<notin> set (''-'' @ ws1 @ ''**'' @ d @ ''**:'' @ ws2 @ S)"
  shows "match_date_line (''-'' @ ws1 @ ''**'' @ d @ ''**:'' @ ws2 @ S) = Some (d, S)"
proof -
  have dw: "dash_ws (''-'' @ ws1 @ (''**'' @ d @ ''**:'' @ ws2 @ S)) = ''**'' @ d @ ''**:'' @ ws2 @ S"
    by (intro dash_ws_eq assms(1)) auto
  have p: "plain_direct (''-'' @ ws1 @ ''**'' @ d @ ''**:'' @ ws2 @ S) = None"
    using dw date_split_reject [of "''**'' @ d @ ''**:'' @ ws2 @ S"]
    by (simp add: plain_direct_def)
  have "emph_direct (''-'' @ ws1 @ ''**'' @ d @ ''**:'' @ ws2 @ S) = Some (d, S)"
    using dw date_split_token [OF assms(3), of "''**:'' @ ws2 @ S"]
      ws_then_rest_ws [OF assms(2,4,5)]
    by (simp add: emph_direct_def tail_direct_def)
  with p show ?thesis
    using match_date_line_direct [OF assms(6)] by simp
qed

section \<open>Records stay\<close>

lemma process_line_skip:
  "strip l = [] \<or> prefix ''*'' (strip l) \<Longrightarrow> process_line p t st l = st"
  by (auto simp: process_line_def Let_def)

lemma process_lines_skip:
  "\<forall>l\<in>set ls. strip l = [] \<or> prefix ''*'' (strip l) \<Longrightarrow> process_lines p t st ls = st"
  by (induction ls arbitrary: st) (simp_all add: process_lines_Nil process_lines_Cons process_line_skip)

lemma map_update_same:
  assumes "f x = f (xs ! i)"
  shows "map f (xs[i := x]) = map f xs"
proof (cases "i < length xs")
  case True
  then show ?thesis using assms by (simp add: map_update list_update_same_conv)
next
  case False
  then have "length xs \<le> i" by simp
  then show ?thesis by (simp only: list_update_beyond)
qed

lemma process_line_keeps:
  "prefix (map entry_key (fst st)) (map entry_key (fst (process_line p t st l)))"
  by (cases st)
    (auto simp: process_line_def Let_def entry_key_def map_update_same split: option.splits)

lemma process_lines_keeps:
  "prefix (map entry_key (fst st)) (map entry_key (fst (process_lines p t st ls)))"
proof (induction ls arbitrary: st)
  case Nil
  show ?case by (simp add: process_lines_Nil)
next
  case (Cons l ls)
  from process_line_keeps [of st p t l] Cons [of "process_line p t st l"]
  show ?case by (auto simp: process_lines_Cons intro: prefix_order.trans)
qed

lemma opened_record_stays:
  assumes "process_line p t st l
      = (fst st @ [\<lparr>project = p, date = d, content = S, details = []\<rparr>], cur)"
    and that: "st = process_lines p t st0 ls1"
  shows "\<exists>r\<in>set (fst (process_lines p t st0 (ls1 @ l # ls2))).
           project r = p \<and> date r = d \<and> content r = S"
proof -
  let ?s2 = "process_line p t st l"
  have e: "process_lines p t st0 (ls1 @ l # ls2) = process_lines p t ?s2 ls2"
    using that by (simp add: process_lines_append process_lines_Cons)
  have "(p, d, S) \<in> set (map entry_key (fst ?s2))"
    by (simp add: assms(1) entry_key_def)
  with set_mono_prefix [OF process_lines_keeps [of ?s2 p t ls2]]
  have "(p, d, S) \<in> set (map entry_key (fst (process_lines p t ?s2 ls2)))"
    by blast
  then obtain r where "r \<in> set (fst (process_lines p t ?s2 ls2))" and "entry_key r = (p, d, S)"
    by auto
  then show ?thesis
    unfolding e by (auto simp: entry_key_def)
qed

section \<open>Lines that leave the records as they are\<close>

text \<open>
  A line that carries no record for the target date leaves the list as it is while no
  record is open; a line that is neither a dated line nor a detail leaves the whole state;
  a line dated otherwise closes the open record. So the lines after a record add nothing
  to it when none of them is a detail before the next dated line.
\<close>

lemma no_target_line_step:
  assumes "line_date l \<noteq> Some t"
  shows "process_line p t (accs, None) l = (accs, None)"
  using assms
  by (auto simp: line_date_def skipped_def process_line_def Let_def split: option.splits if_splits)

lemma no_target_lines:
  "\<forall>l\<in>set ls. line_date l \<noteq> Some t \<Longrightarrow> process_lines p t (accs, None) ls = (accs, None)"
  by (induction ls) (simp_all add: process_lines_Nil process_lines_Cons no_target_line_step)

lemma inert_line_step:
  assumes "line_date l = None" and "\<not> is_detail l"
  shows "process_line p t st l = st"
  using assms
  by (cases st)
    (auto simp: line_date_def skipped_def is_detail_def process_line_def Let_def
      split: option.splits if_splits)

lemma other_date_line_step:
  assumes "line_date l = Some dt" and "dt \<noteq> t"
  shows "process_line p t (accs, cur) l = (accs, None)"
  using assms
  by (auto simp: line_date_def skipped_def process_line_def Let_def split: option.splits if_splits)

lemma no_detail_lines:
  assumes "\<forall>l\<in>set ls. line_date l \<noteq> Some t" and "no_detail_before_date ls"
  shows "fst (process_lines p t (accs, cur) ls) = accs"
  using assms
proof (induction ls)
  case Nil
  show ?case by (simp add: process_lines_Nil)
next
  case (Cons l ls)
  show ?case
  proof (cases "line_date l")
    case None
    with Cons.prems have "\<not> is_detail l" and "no_detail_before_date ls" by simp_all
    with None Cons show ?thesis
      by (simp add: process_lines_Cons inert_line_step)
  next
    case (Some dt)
    with Cons.prems have "dt \<noteq> t" by auto
    with Some Cons.prems show ?thesis
      by (simp add: process_lines_Cons other_date_line_step no_target_lines)
  qed
qed

section \<open>Extraction of a text\<close>

lemma parse_text_lines:
  assumes "find_section ''## Recent Accomplishments'' txt = Some sec"
  shows "parse_text p txt t = fst (process_lines p t ([], None) (split_nl sec))"
  using assms by (simp add: parse_text_def)

section \<open>Joining lines\<close>

lemma join_Cons_if: "join sep (x # xs) = (if xs = [] then x else x @ sep @ join sep xs)"
  by (cases xs) simp_all

lemma join_append:
  "xs \<noteq> [] \<Longrightarrow> ys \<noteq> [] \<Longrightarrow> join sep (xs @ ys) = join sep xs @ sep @ join sep ys"
  by (induction xs) (simp_all add: join_Cons_if)

lemma join_snoc_empty: "xs \<noteq> [] \<Longrightarrow> join sep (xs @ [[]]) = join sep xs @ sep"
  by (simp add: join_append)

lemma hd_join: "xs \<noteq> [] \<Longrightarrow> hd xs \<noteq> [] \<Longrightarrow> hd (join sep xs) = hd (hd xs)"
  by (cases xs) (auto simp: join_Cons_if)

lemma join_nonempty_hd: "xs \<noteq> [] \<Longrightarrow> hd xs \<noteq> [] \<Longrightarrow> join sep xs \<noteq> []"
  by (cases xs) (auto simp: join_Cons_if)

lemma join_nonempty_last: "xs \<noteq> [] \<Longrightarrow> last xs \<noteq> [] \<Longrightarrow> join sep xs \<noteq> []"
  by (induction xs) (auto simp: join_Cons_if)

lemma last_join:
  "xs \<noteq> [] \<Longrightarrow> last xs \<noteq> [] \<Longrightarrow> last (join sep xs) = last (last xs)"
  by (induction xs) (auto simp: join_Cons_if join_nonempty_last)

lemma strip_ws_suffix:
  assumes "list_all isspace ws"
  shows "strip (s @ ws) = strip s"
proof -
  from assms have d: "dropWhile isspace (rev ws @ r) = dropWhile isspace r" for r
    by (induction ws arbitrary: r) auto
  show ?thesis
  proof (cases "\<forall>c\<in>set s. isspace c")
    case True
    with assms have "\<forall>c\<in>set (s @ ws). isspace c" by (auto simp: list_all_iff)
    with True show ?thesis by (simp only: strip_eq_Nil_iff [symmetric])
  next
    case False
    then have "dropWhile isspace s \<noteq> []" by (simp add: dropWhile_eq_Nil_conv)
    then have "dropWhile isspace (s @ ws) = dropWhile isspace s @ ws"
      by (induction s) auto
    then show ?thesis by (simp add: strip_def d)
  qed
qed

section \<open>Grouping by project\<close>

lemma projects_add_keys:
  "fst ` set (projects_add ps a) = insert (project a) (fst ` set ps)"
  by (induction ps a rule: projects_add.induct) auto

lemma projects_add_distinct:
  "distinct (map fst ps) \<Longrightarrow> distinct (map fst (projects_add ps a))"
proof (induction ps a rule: projects_add.induct)
  case (1 acc)
  show ?case by simp
next
  case (2 k v ps acc)
  then show ?case
    using projects_add_keys [of ps acc] by auto
qed

lemma projects_add_values:
  assumes "\<forall>kv\<in>set ps. snd kv = filter (\<lambda>b. project b = fst kv) xs"
    and "project a \<notin> fst ` set ps \<longrightarrow> filter (\<lambda>b. project b = project a) xs = []"
    and "kv \<in> set (projects_add ps a)"
    and "distinct (map fst ps)"
  shows "snd kv = filter (\<lambda>b. project b = fst kv) (xs @ [a])"
  using assms
proof (induction ps a rule: projects_add.induct)
  case (1 acc)
  then show ?case by auto
next
  case (2 k v ps acc)
  show ?case
  proof (cases "k = project acc")
    case True
    with 2(2,4,5) show ?thesis by (auto simp: rev_image_eqI)
  next
    case False
    show ?thesis
    proof (cases "kv = (k, v)")
      case True
      with False 2(2) show ?thesis by auto
    next
      case n: False
      with False 2(4) have m: "kv \<in> set (projects_add ps acc)" by simp
      show ?thesis
        by (rule 2(1) [OF False _ _ m]) (use 2(2,3,5) False in auto)
    qed
  qed
qed

lemma projects_add_grouped:
  assumes "grouped ps xs"
  shows "grouped (projects_add ps a) (xs @ [a])"
proof -
  from assms have d: "distinct (map fst ps)" and k: "fst ` set ps = project ` set xs"
    and v: "\<forall>kv\<in>set ps. snd kv = filter (\<lambda>b. project b = fst kv) xs"
    by (simp_all add: grouped_def)
  have n: "project a \<notin> fst ` set ps \<longrightarrow> filter (\<lambda>b. project b = project a) xs = []"
    unfolding k by (auto simp: filter_empty_conv intro: rev_image_eqI)
  show ?thesis
    unfolding grouped_def
    using projects_add_distinct [OF d, of a] projects_add_keys [of ps a] k
      projects_add_values [OF v n _ d]
    by auto
qed

lemma foldl_projects_grouped: "grouped (foldl projects_add [] xs) xs"
proof (induction xs rule: rev_induct)
  case Nil
  show ?case by (simp add: grouped_def)
next
  case (snoc a xs)
  then show ?case by (simp add: projects_add_grouped)
qed

section \<open>Sorting the groups and joining their lines\<close>

lemma grouped_sorted:
  assumes "grouped ps xs"
  shows "sort_key fst ps
     = map (\<lambda>k. (k, filter (\<lambda>a. project a = k) xs)) (sort (remdups (map project xs)))"
proof -
  let ?qs = "sort_key fst ps"
  let ?F = "\<lambda>k. filter (\<lambda>a. project a = k) xs"
  from assms have d: "distinct (map fst ps)" and k: "fst ` set ps = project ` set xs"
    and v: "\<forall>kv\<in>set ps. snd kv = ?F (fst kv)"
    by (simp_all add: grouped_def)
  have "card (set (map fst ?qs)) = card (set (map fst ps))" by simp
  also have "\<dots> = length (map fst ps)" using d by (rule distinct_card)
  also have "\<dots> = length (map fst ?qs)" by simp
  finally have dq: "distinct (map fst ?qs)" by (rule card_distinct)
  have "set (map fst ?qs) = set (sort (remdups (map project xs)))"
    using k by simp
  with dq have keys: "map fst ?qs = sort (remdups (map project xs))"
    by (intro sorted_distinct_set_unique) simp_all
  have "map (\<lambda>kv. (fst kv, ?F (fst kv))) ?qs = ?qs"
    using v by (intro map_idI) (auto simp: prod_eq_iff)
  then have "?qs = map (\<lambda>k. (k, ?F k)) (map fst ?qs)"
    by (simp add: comp_def)
  with keys show ?thesis by simp
qed

lemma join_blocks:
  assumes "ks \<noteq> []" and "\<forall>k\<in>set ks. B k \<noteq> []"
  shows "join [NL] (concat (map (\<lambda>k. B k @ [[]]) ks))
     = join [NL, NL] (map (\<lambda>k. join [NL] (B k)) ks) @ [NL]"
  using assms
proof (induction ks)
  case Nil
  then show ?case by simp
next
  case (Cons k ks)
  show ?case
  proof (cases "ks = []")
    case True
    with Cons.prems show ?thesis by (simp add: join_snoc_empty)
  next
    case False
    with Cons.prems have r: "concat (map (\<lambda>k. B k @ [[]]) ks) \<noteq> []"
      by (cases ks) auto
    have "join [NL] (concat (map (\<lambda>k. B k @ [[]]) (k # ks)))
        = join [NL] (B k @ [[]]) @ [NL] @ join [NL] (concat (map (\<lambda>k. B k @ [[]]) ks))"
      using r by (simp add: join_append del: append_assoc)
    also have "\<dots> = join [NL] (B k) @ [NL, NL]
        @ join [NL, NL] (map (\<lambda>k. join [NL] (B k)) ks) @ [NL]"
      using Cons.IH [OF False] Cons.prems by (simp add: join_snoc_empty)
    finally show ?thesis using False by (simp add: join_Cons_if)
  qed
qed

lemma entry_lines_good: "tidy r \<Longrightarrow> l \<in> set (entry_lines r) \<Longrightarrow> good_line l"
  by (auto simp: tidy_def entry_lines_def good_line_def isspace_def)

lemma block_good:
  assumes "\<forall>r\<in>set xs. tidy r" and "l \<in> set (block xs k)"
  shows "good_line l"
proof -
  have "good_line (''### [['' @ k @ '']]'')"
    by (simp add: good_line_def isspace_def)
  with assms entry_lines_good show ?thesis
    by (auto simp: block_def)
qed

lemma block_text:
  assumes "\<forall>r\<in>set xs. tidy r"
  shows "join [NL] (block xs k) \<noteq> []" and "hd (join [NL] (block xs k)) = CHR ''#''"
    and "\<not> isspace (last (join [NL] (block xs k)))"
proof -
  have ne: "block xs k \<noteq> []" and h: "hd (block xs k) = ''### [['' @ k @ '']]''"
    by (simp_all add: block_def)
  from h show "join [NL] (block xs k) \<noteq> []"
    by (intro join_nonempty_hd ne) simp
  from h show "hd (join [NL] (block xs k)) = CHR ''#''"
    by (simp add: hd_join ne)
  from ne have "last (block xs k) \<in> set (block xs k)" by simp
  with block_good [OF assms] have g: "good_line (last (block xs k))" by blast
  then show "\<not> isspace (last (join [NL] (block xs k)))"
    by (simp add: last_join ne good_line_def)
qed

lemma render_stripped:
  "format_accomplishments_for_obsidian records = strip (spec_render records)"
proof (cases "records = []")
  case True
  have "strip ''No development accomplishments logged today.''
      = ''No development accomplishments logged today.''"
    by (rule strip_id) (simp_all add: isspace_def)
  with True show ?thesis
    by (simp add: format_accomplishments_for_obsidian_def spec_render_def)
next
  case False
  let ?ks = "sort (remdups (map project records))"
  let ?J = "\<lambda>k. join [NL] (block records k)"
  let ?X = "join [NL, NL] (map ?J ?ks)"
  from False have ks: "?ks \<noteq> []"
    by (metis length_0_conv length_sort map_is_Nil_conv remdups_eq_nil_iff)
  have "format_accomplishments_for_obsidian records
      = strip (join [NL] (concat (map (\<lambda>k. block records k @ [[]]) ?ks)))"
    using False grouped_sorted [OF foldl_projects_grouped [of records]]
    by (simp add: format_accomplishments_for_obsidian_def Let_def project_lines_def block_def
        comp_def)
  also have "\<dots> = strip (?X @ [NL])"
    by (subst join_blocks [OF ks]) (simp_all add: block_def)
  also have "\<dots> = strip ?X"
    by (rule strip_ws_suffix) simp
  also have "?X = spec_render records"
  proof -
    have el: "(\<lambda>r. (''- '' @ content r) # map (\<lambda>d. ''  - '' @ d) (details r)) = entry_lines"
      by (rule ext) (simp add: entry_lines_def)
    have "spec_block records k = ?J k" for k
      unfolding spec_block_def block_def el by (rule refl)
    then have "spec_block records = ?J" by (rule ext)
    with False show ?thesis by (simp add: spec_render_def)
  qed
  finally show ?thesis .
qed

lemma spec_render_tidy:
  assumes "\<forall>r\<in>set records. tidy r"
  shows "strip (spec_render records) = spec_render records"
proof (cases "records = []")
  case True
  have "strip ''No development accomplishments logged today.''
      = ''No development accomplishments logged today.''"
    by (rule strip_id) (simp_all add: isspace_def)
  with True show ?thesis by (simp add: spec_render_def)
next
  case False
  let ?ks = "sort (remdups (map project records))"
  let ?J = "\<lambda>k. join [NL] (block records k)"
  let ?X = "join [NL, NL] (map ?J ?ks)"
  from False have ks: "?ks \<noteq> []"
    by (metis length_0_conv length_sort map_is_Nil_conv remdups_eq_nil_iff)
  have x: "spec_render records = ?X"
  proof -
    have el: "(\<lambda>r. (''- '' @ content r) # map (\<lambda>d. ''  - '' @ d) (details r)) = entry_lines"
      by (rule ext) (simp add: entry_lines_def)
    have "spec_block records k = ?J k" for k
      unfolding spec_block_def block_def el by (rule refl)
    then have "spec_block records = ?J" by (rule ext)
    with False show ?thesis by (simp add: spec_render_def)
  qed
  have "strip ?X = ?X"
  proof (rule strip_id)
    note bt = block_text [OF assms]
    have hd: "hd (map ?J ?ks) \<noteq> []" using ks bt(1) by (simp add: hd_map)
    have la: "last (map ?J ?ks) \<noteq> []" using ks bt(1) by (simp add: last_map)
    show "?X \<noteq> []" using ks hd by (intro join_nonempty_hd) simp_all
    show "\<not> isspace (hd ?X)" using ks hd bt(2) by (simp add: hd_join hd_map)
    show "\<not> isspace (last ?X)" using ks la bt(3) by (simp add: last_join last_map)
  qed
  then show ?thesis by (simp only: x)
qed

section \<open>Extraction yields tidy records\<close>

lemma process_line_tidy:
  assumes "NL \<notin> set raw" and "\<forall>r\<in>set (fst st). tidy r"
  shows "\<forall>r\<in>set (fst (process_line p t st raw)). tidy r"
proof -
  obtain accs cur where st: "st = (accs, cur)" by (cases st)
  have new: "tidy \<lparr>project = p, date = d, content = strip u, details = []\<rparr>"
    if "match_date_line (strip raw) = Some (d, u)" for d u
    using match_date_line_summary [OF assms(1) that] strip_ends(2) [of u]
    by (simp add: tidy_def)
  have upd: "\<forall>r\<in>set (accs[i := (accs ! i)\<lparr>details := details (accs ! i) @ [strip x]\<rparr>]). tidy r"
    if "strip x \<noteq> []" for i x
  proof (cases "i < length accs")
    case True
    then have "tidy (accs ! i)" using assms(2) st by simp
    then have "tidy ((accs ! i)\<lparr>details := details (accs ! i) @ [strip x]\<rparr>)"
      using that strip_ends(2) [OF that] by (simp add: tidy_def)
    with assms(2) st set_update_subset_insert [of accs i] show ?thesis by auto
  next
    case False
    then have le: "length accs \<le> i" by simp
    show ?thesis using assms(2) st by (simp only: list_update_beyond [OF le]) simp
  qed
  show ?thesis
    using assms(2) st new upd
    by (auto simp: process_line_def Let_def split: option.splits)
qed

lemma parse_text_tidy: "\<forall>r\<in>set (parse_text p txt t). tidy r"
proof (cases "find_section ''## Recent Accomplishments'' txt")
  case None
  then show ?thesis by (simp add: parse_text_def)
next
  case (Some sec)
  have "\<forall>r\<in>set (fst (process_lines p t st ls)). tidy r"
    if "\<forall>l\<in>set ls. NL \<notin> set l" and "\<forall>r\<in>set (fst st). tidy r" for ls st
    using that
  proof (induction ls arbitrary: st)
    case Nil
    then show ?case by (simp add: process_lines_Nil)
  next
    case (Cons l ls)
    from Cons.prems have "\<forall>r\<in>set (fst (process_line p t st l)). tidy r"
      by (intro process_line_tidy) simp_all
    with Cons show ?case by (simp add: process_lines_Cons)
  qed
  from this [of "split_nl sec" "([], None)"] Some show ?thesis
    by (auto simp: parse_text_lines dest: split_nl_no_NL)
qed

section \<open>Appending the section to a note\<close>

text \<open>
  Reading in text mode changes nothing in a text without carriage returns. Where the section
  pattern finds no match, the merged text is the old text, closed by a newline if it was
  not, then one empty line, then the heading and the body; its lines are the old lines,
  one blank line and the lines of the new section.
\<close>

lemma universal_newlines_id: "CR \<notin> set raw \<Longrightarrow> universal_newlines raw = raw"
  by (induction raw rule: universal_newlines.induct) auto

lemma merge_section_no_match:
  assumes "re_search (section_rx section_header) txt = None"
  shows "merge_section txt body
           = (if suffix [NL] txt then txt else txt @ [NL]) @ [NL] @ full_section body"
  using assms by (simp add: merge_section_def)

lemma appended_lines:
  "split_nl ((if suffix [NL] txt then txt else txt @ [NL]) @ [NL] @ full_section body)
     = old_lines txt @ [[]] @ split_nl (full_section body)"
proof (cases "suffix [NL] txt")
  case True
  then obtain t0 where t: "txt = t0 @ [NL]" by (auto simp: suffix_def)
  show ?thesis
    using True t by (simp add: old_lines_def split_nl_snoc split_nl_append)
next
  case False
  then show ?thesis
    by (simp add: old_lines_def split_nl_append)
qed

lemma appended_blank_run:
  "blank_run (take (Suc (length ls)) (ls @ [[]] @ rest)) = Suc (blank_run ls)"
  by (simp add: blank_run_def strip_def)

lemma mkdir_parents_files: "mkdir_parents p w = Inr w1 \<Longrightarrow> files w1 = files w"
  by (auto simp: mkdir_parents_def split: if_splits)

section \<open>Details belong to one record\<close>

text \<open>
  C4, as amended. A line of the section that is not skipped (it is not blank and does not
  begin with \<open>*\<close>), matches a date shape and carries a date of the calendar, whether the
  target date or another, closes the record that was open: after it \<open>current_entry\<close> is
  \<open>None\<close> or the record this line has just opened, and the records that existed before the
  line are the same at the end of the section, whatever lines follow, so no later detail
  reaches them.
\<close>

theorem date_line_closes_record:
  assumes "strip l \<noteq> []" and "\<not> prefix ''*'' (strip l)"
    and "match_date_line (strip l) = Some (d, c)" and "strptime_date d \<noteq> None"
  shows "(snd (process_line p t (process_lines p t st ls1) l) = None
          \<or> snd (process_line p t (process_lines p t st ls1) l)
               = Some (length (fst (process_lines p t st ls1))))
    \<and> take (length (fst (process_lines p t st ls1)))
         (fst (process_lines p t st (ls1 @ l # ls2)))
       = fst (process_lines p t st ls1)"
proof -
  let ?s1 = "process_lines p t st ls1"
  let ?s2 = "process_line p t ?s1 l"
  from assms(4) obtain dt where dt: "strptime_date d = Some dt" by auto
  note step = date_line_step [OF assms(1-3) dt, of p t ?s1]
  have a: "snd ?s2 = None \<or> snd ?s2 = Some (length (fst ?s1))"
    by (simp add: step)
  have f: "frozen (length (fst ?s1)) ?s2"
    by (simp add: step frozen_def)
  have k: "take (length (fst ?s1)) (fst ?s2) = fst ?s1"
    by (simp add: step)
  have "process_lines p t st (ls1 @ l # ls2) = process_lines p t ?s2 ls2"
    by (simp add: process_lines_append process_lines_Cons)
  with process_lines_frozen [OF f, of p t ls2] k
  have "take (length (fst ?s1)) (fst (process_lines p t st (ls1 @ l # ls2))) = fst ?s1"
    by simp
  with a show ?thesis by simp
qed

theorem date_line_closes_record_witness:
  "strip ''- 2025-01-16: b'' \<noteq> [] \<and> \<not> prefix ''*'' (strip ''- 2025-01-16: b'')
   \<and> match_date_line (strip ''- 2025-01-16: b'') = Some (''2025-01-16'', ''b'')
   \<and> strptime_date ''2025-01-16'' \<noteq> None
   \<and> take 1 (fst (process_lines ''p'' (2025, 1, 15) ([], None)
         ([''- 2025-01-15: a''] @ ''- 2025-01-16: b'' # [''- sub''])))
      = [\<lparr>project = ''p'', date = ''2025-01-15'', content = ''a'', details = []\<rparr>]"
proof -
  have w1: "strip ''- 2025-01-16: b'' = ''- 2025-01-16: b''"
    by code_simp
  have w2: "match_date_line ''- 2025-01-16: b'' = Some (''2025-01-16'', ''b'')"
    by code_simp
  have w3: "strptime_date ''2025-01-16'' = Some (2025, 1, 16)"
    by code_simp
  have w4: "process_lines ''p'' (2025, 1, 15) ([], None) [''- 2025-01-15: a'']
      = ([\<lparr>project = ''p'', date = ''2025-01-15'', content = ''a'', details = []\<rparr>], Some 0)"
    by code_simp
  have h1: "strip ''- 2025-01-16: b'' \<noteq> []" by (simp add: w1)
  have h2: "\<not> prefix ''*'' (strip ''- 2025-01-16: b'')" by (simp add: w1)
  have h3: "match_date_line (strip ''- 2025-01-16: b'') = Some (''2025-01-16'', ''b'')"
    by (simp only: w1 w2)
  have h4: "strptime_date ''2025-01-16'' \<noteq> None" by (simp add: w3)
  note th = date_line_closes_record [OF h1 h2 h3 h4, of "''p''" "(2025, 1, 15)" "([], None)"
      "[''- 2025-01-15: a'']" "[''- sub'']", THEN conjunct2]
  have c: "take 1 (fst (process_lines ''p'' (2025, 1, 15) ([], None)
         ([''- 2025-01-15: a''] @ ''- 2025-01-16: b'' # [''- sub''])))
      = [\<lparr>project = ''p'', date = ''2025-01-15'', content = ''a'', details = []\<rparr>]"
    using th unfolding w4 by simp
  from h1 h2 h3 h4 c show ?thesis by (intro conjI)
qed

text \<open>
  C4 as stated fails for a line of a date shape whose date is not of the calendar: the
  \<open>ValueError\<close> is passed over, the record stays open, and the detail line that follows is
  appended to the record opened before that line.
\<close>

theorem invalid_date_line_keeps_record_open:
  "match_date_line (strip ''- 2025-13-99: b'') = Some (''2025-13-99'', ''b'')
   \<and> process_lines ''p'' (2025, 1, 15) ([], None)
        [''- 2025-01-15: a'', ''- 2025-13-99: b'', ''- sub'']
      = ([\<lparr>project = ''p'', date = ''2025-01-15'', content = ''a'', details = [''sub'']\<rparr>],
         Some 0)"
  by code_simp

text \<open>
  C9. Every record that extraction emits, for any text and any target date, has a summary
  that is not empty after trimming white space at both ends.
\<close>

theorem summary_never_blank:
  "\<forall>r\<in>set (parse_text p txt t). strip (content r) \<noteq> []"
proof (cases "find_section ''## Recent Accomplishments'' txt")
  case None
  then show ?thesis by (simp add: parse_text_def)
next
  case (Some sec)
  have "summaries_ok (process_lines p t ([], None) (split_nl sec))"
    by (rule process_lines_summaries) (auto simp: summaries_ok_def dest: split_nl_no_NL)
  with Some show ?thesis by (simp add: parse_text_def summaries_ok_def)
qed

theorem summary_never_blank_witness:
  "parse_text ''p'' ''## Recent Accomplishments\<newline>- 2025-01-15:'' (2025, 1, 15)
     = [\<lparr>project = ''p'', date = ''2025-01-15'', content = '':'', details = []\<rparr>]
   \<and> strip '':'' \<noteq> []"
proof -
  have e: "parse_text ''p'' ''## Recent Accomplishments\<newline>- 2025-01-15:'' (2025, 1, 15)
     = [\<lparr>project = ''p'', date = ''2025-01-15'', content = '':'', details = []\<rparr>]"
    by code_simp
  from summary_never_blank [of "''p''" "''## Recent Accomplishments\<newline>- 2025-01-15:''" "(2025, 1, 15)"]
  have "strip '':'' \<noteq> []"
    unfolding e by simp
  with e show ?thesis by (intro conjI)
qed

section \<open>Lines that carry a date and nothing else\<close>

text \<open>
  C10, as amended. A line of the section that consists of an optional \<open>-\<close>, optional white
  space and a date token, plain or between \<open>**\<close>, with nothing after it (such as
  \<open>- 2025-01-15\<close>) matches neither date pattern, so it opens no record and closes none.
  If a record is open and the line begins with \<open>-\<close>, the text after the \<open>-\<close> and the white
  space is appended to the details of that record; otherwise the state is unchanged.
\<close>

theorem bare_date_line_is_detail:
  assumes "NL \<notin> set raw" and "strip raw = dash @ ws @ k"
    and "dash = [] \<or> dash = ''-''" and "list_all isspace ws"
    and "is_date_token d" and "k = d \<or> k = ''**'' @ d @ ''**''"
  shows "match_date_line (strip raw) = None
    \<and> process_line p t (accs, cur) raw =
        (case cur of
           None \<Rightarrow> (accs, cur)
         | Some i \<Rightarrow>
             if dash = ''-''
             then (accs[i := (accs ! i)\<lparr>details := details (accs ! i) @ [k]\<rparr>], cur)
             else (accs, cur))"
proof -
  from assms(1,2) set_strip [of raw] have nl: "NL \<notin> set (dash @ ws @ k)" by auto
  have m: "match_date_line (strip raw) = None"
    unfolding assms(2) by (rule bare_date_no_match [OF assms(3,4,5,6) nl])
  note e = is_date_token_ends [OF assms(5)]
  from assms(6) e have k: "k \<noteq> []" "\<not> isspace (hd k)" "\<not> isspace (last k)"
    using digit_not_space [of "hd d"] digit_not_space [of "last d"] by auto
  have sk: "strip (ws @ k) = k"
    using strip_ws_prefix [OF assms(4), of k] strip_id [OF k] by simp
  show ?thesis
  proof (cases "dash = ''-''")
    case True
    then have l: "strip raw = CHR ''-'' # ws @ k" using assms(2) by simp
    have "\<not> prefix ''*'' (strip raw)" "prefix ''-'' (strip raw)" "strip raw \<noteq> []"
      "strip (tl (strip raw)) = k"
      using l sk by simp_all
    with m k(1) True show ?thesis
      by (simp add: process_line_def Let_def split: option.splits)
  next
    case False
    with assms(3) have d: "dash = []" by simp
    have ne: "strip raw \<noteq> []" using assms(2) k(1) by simp
    from strip_ends(1) [OF ne] assms(2,4) d have "ws = []"
      by (cases ws) auto
    with assms(2) d have l: "strip raw = k" by simp
    have "\<not> prefix ''-'' k"
      using assms(6) e by (cases d) auto
    with m l False show ?thesis
      by (simp add: process_line_def Let_def split: option.splits)
  qed
qed


theorem bare_date_line_is_detail_witness:
  "NL \<notin> set ''- 2025-01-15'' \<and> strip ''- 2025-01-15'' = ''-'' @ '' '' @ ''2025-01-15''
   \<and> list_all isspace '' '' \<and> is_date_token ''2025-01-15''
   \<and> match_date_line (strip ''- 2025-01-15'') = None
   \<and> process_line ''p'' (2025, 1, 15)
         ([\<lparr>project = ''p'', date = ''2025-01-15'', content = ''a'', details = []\<rparr>], Some 0)
         ''- 2025-01-15''
       = ([\<lparr>project = ''p'', date = ''2025-01-15'', content = ''a'',
             details = [''2025-01-15'']\<rparr>], Some 0)"
proof -
  have h1: "NL \<notin> set ''- 2025-01-15''" by code_simp
  have h2: "strip ''- 2025-01-15'' = ''-'' @ '' '' @ ''2025-01-15''" by code_simp
  have h3: "''-'' = [] \<or> ''-'' = ''-''" by simp
  have h4: "list_all isspace '' ''" by code_simp
  have h5: "is_date_token ''2025-01-15''" by code_simp
  have h6: "''2025-01-15'' = ''2025-01-15'' \<or> ''2025-01-15'' = ''**'' @ ''2025-01-15'' @ ''**''"
    by simp
  note th = bare_date_line_is_detail [OF h1 h2 h3 h4 h5 h6, of "''p''" "(2025, 1, 15)"
      "[\<lparr>project = ''p'', date = ''2025-01-15'', content = ''a'', details = []\<rparr>]" "Some 0"]
  have m: "match_date_line (strip ''- 2025-01-15'') = None"
    using th by (rule conjunct1)
  have c: "process_line ''p'' (2025, 1, 15)
         ([\<lparr>project = ''p'', date = ''2025-01-15'', content = ''a'', details = []\<rparr>], Some 0)
         ''- 2025-01-15''
       = ([\<lparr>project = ''p'', date = ''2025-01-15'', content = ''a'',
             details = [''2025-01-15'']\<rparr>], Some 0)"
    using th [THEN conjunct2] by simp
  from h1 h2 h4 h5 m c show ?thesis by (intro conjI)
qed

text \<open>
  C10 as stated fails for a date token followed by a colon: after \<open>:?\<close> has given the colon
  back, \<open>(.+)\<close> takes it, so \<open>- 2025-01-15:\<close> matches the plain pattern with the summary
  \<open>:\<close>, and opens a record when the date is the target date.
\<close>

theorem date_colon_line_matches:
  "match_date_line (strip ''- 2025-01-15:'') = Some (''2025-01-15'', '':'')
   \<and> process_line ''p'' (2025, 1, 15) ([], None) ''- 2025-01-15:''
       = ([\<lparr>project = ''p'', date = ''2025-01-15'', content = '':'', details = []\<rparr>], Some 0)"
  by code_simp

section \<open>Lines with an emphasized date\<close>

text \<open>
  C3, as amended. For a line of the section of the shape \<open>- **DATE**: summary\<close>, with the
  leading \<open>-\<close>, whose date token is a date of the calendar and the target date, extraction
  emits a record with that project, date and summary. (A line that begins with \<open>*\<close> is
  skipped before any pattern is tried, so the shape without the leading \<open>-\<close> emits nothing.)
\<close>

theorem emphasized_dash_line_emits:
  assumes "find_section ''## Recent Accomplishments'' txt = Some sec"
    and "split_nl sec = ls1 @ raw # ls2"
    and "strip raw = ''-'' @ ws1 @ ''**'' @ d @ ''**:'' @ ws2 @ S"
    and "list_all isspace ws1" and "list_all isspace ws2"
    and "is_date_token d" and "strptime_date d = Some t"
    and "S \<noteq> []" and "\<not> isspace (hd S)"
  shows "\<exists>r\<in>set (parse_text p txt t). project r = p \<and> date r = d \<and> content r = S"
proof -
  let ?st = "process_lines p t ([], None) ls1"
  have "raw \<in> set (split_nl sec)" using assms(2) by simp
  then have "NL \<notin> set raw" by (rule split_nl_no_NL)
  with set_strip [of raw] have nl: "NL \<notin> set (''-'' @ ws1 @ ''**'' @ d @ ''**:'' @ ws2 @ S)"
    unfolding assms(3) [symmetric] by auto
  have m: "match_date_line (strip raw) = Some (d, S)"
    unfolding assms(3) by (rule emph_line_match [OF assms(4,5,6,8,9) nl])
  have ne: "strip raw \<noteq> []" and ns: "\<not> prefix ''*'' (strip raw)"
    by (simp_all add: assms(3))
  have "last ((''-'' @ ws1 @ ''**'' @ d @ ''**:'' @ ws2) @ S) = last S"
    using assms(8) by (rule last_appendR)
  then have "last (strip raw) = last S" by (simp add: assms(3))
  with strip_ends(2) [OF ne] have "\<not> isspace (last S)" by simp
  with assms(8,9) have sS: "strip S = S" by (intro strip_id)
  have step: "process_line p t ?st raw
      = (fst ?st @ [\<lparr>project = p, date = d, content = S, details = []\<rparr>], Some (length (fst ?st)))"
    using date_line_step [OF ne ns m assms(7), of p t ?st] sS by simp
  from opened_record_stays [OF step refl, of ls2]
  show ?thesis
    by (simp add: parse_text_lines [OF assms(1)] assms(2))
qed


theorem emphasized_dash_line_emits_witness:
  "find_section ''## Recent Accomplishments'' ''## Recent Accomplishments\<newline>- **2025-01-15**: v2''
     = Some ''- **2025-01-15**: v2''
   \<and> split_nl ''- **2025-01-15**: v2'' = [] @ ''- **2025-01-15**: v2'' # []
   \<and> strip ''- **2025-01-15**: v2'' = ''-'' @ '' '' @ ''**'' @ ''2025-01-15'' @ ''**:'' @ '' '' @ ''v2''
   \<and> list_all isspace '' '' \<and> is_date_token ''2025-01-15''
   \<and> strptime_date ''2025-01-15'' = Some (2025, 1, 15)
   \<and> (\<exists>r\<in>set (parse_text ''p'' ''## Recent Accomplishments\<newline>- **2025-01-15**: v2'' (2025, 1, 15)).
         project r = ''p'' \<and> date r = ''2025-01-15'' \<and> content r = ''v2'')"
proof -
  have h1: "find_section ''## Recent Accomplishments''
      ''## Recent Accomplishments\<newline>- **2025-01-15**: v2'' = Some ''- **2025-01-15**: v2''"
    by code_simp
  have h2: "split_nl ''- **2025-01-15**: v2'' = [] @ ''- **2025-01-15**: v2'' # []"
    by code_simp
  have h3: "strip ''- **2025-01-15**: v2''
      = ''-'' @ '' '' @ ''**'' @ ''2025-01-15'' @ ''**:'' @ '' '' @ ''v2''"
    by code_simp
  have h4: "list_all isspace '' ''" by code_simp
  have h6: "is_date_token ''2025-01-15''" by code_simp
  have h7: "strptime_date ''2025-01-15'' = Some (2025, 1, 15)" by code_simp
  have h8: "''v2'' \<noteq> []" by simp
  have h9: "\<not> isspace (hd ''v2'')" by code_simp
  note th = emphasized_dash_line_emits [OF h1 h2 h3 h4 h4 h6 h7 h8 h9, of "''p''"]
  from h1 h2 h3 h4 h6 h7 th show ?thesis by (intro conjI)
qed

text \<open>
  C3 as stated fails: the line \<open>**2025-01-15**: released v2\<close> has the emphasized shape
  without the \<open>-\<close> and the target date, the pattern itself would match it, and extraction
  emits nothing, because lines that begin with \<open>*\<close> are skipped.
\<close>

theorem emphasized_line_without_dash_is_skipped:
  "match_date_line ''**2025-01-15**: released v2'' = Some (''2025-01-15'', ''released v2'')
   \<and> strptime_date ''2025-01-15'' = Some (2025, 1, 15)
   \<and> parse_text ''p'' ''## Recent Accomplishments\<newline>**2025-01-15**: released v2'' (2025, 1, 15)
       = []"
  by code_simp

section \<open>A dated line of the section\<close>

text \<open>
  C1, as amended. For a text whose \<open>## Recent Accomplishments\<close> section has a line
  \<open>- DATE: summary\<close> (as \<open>- 2025-01-15: did X\<close>) whose date is the target date, extraction
  yields a record with that project, date and summary. It yields exactly that one record,
  with no details, when no other line of the section is a dated line for the target date
  and no detail line (a line beginning with \<open>-\<close> that is not a dated line) stands between
  the line and the next line with a valid date, or the end of the section. Entries of
  other dates, their sub-bullets, sub-bullets before the line and prose may be there.
\<close>

theorem dated_line_emits:
  assumes "find_section ''## Recent Accomplishments'' txt = Some sec"
    and "split_nl sec = ls1 @ raw # ls2"
    and "strip raw = ''-'' @ ws1 @ d @ '':'' @ ws2 @ S"
    and "list_all isspace ws1" and "list_all isspace ws2"
    and "is_date_token d" and "strptime_date d = Some t"
    and "S \<noteq> []" and "\<not> isspace (hd S)"
  shows "(\<exists>r\<in>set (parse_text p txt t). project r = p \<and> date r = d \<and> content r = S)
    \<and> ((\<forall>l\<in>set (ls1 @ ls2). line_date l \<noteq> Some t) \<and> no_detail_before_date ls2 \<longrightarrow>
         parse_text p txt t = [\<lparr>project = p, date = d, content = S, details = []\<rparr>])"
proof -
  let ?r = "\<lparr>project = p, date = d, content = S, details = []\<rparr>"
  have "raw \<in> set (split_nl sec)" using assms(2) by simp
  then have "NL \<notin> set raw" by (rule split_nl_no_NL)
  with set_strip [of raw] have nl: "NL \<notin> set (''-'' @ ws1 @ d @ '':'' @ ws2 @ S)"
    unfolding assms(3) [symmetric] by auto
  have m: "match_date_line (strip raw) = Some (d, S)"
    unfolding assms(3) by (rule plain_line_match [OF assms(4,5,6,8,9) nl])
  have ne: "strip raw \<noteq> []" and ns: "\<not> prefix ''*'' (strip raw)"
    by (simp_all add: assms(3))
  have "last ((''-'' @ ws1 @ d @ '':'' @ ws2) @ S) = last S"
    using assms(8) by (rule last_appendR)
  then have "last (strip raw) = last S" by (simp add: assms(3))
  with strip_ends(2) [OF ne] have "\<not> isspace (last S)" by simp
  with assms(8,9) have sS: "strip S = S" by (intro strip_id)
  have step: "\<And>st. process_line p t st raw = (fst st @ [?r], Some (length (fst st)))"
    using date_line_step [OF ne ns m assms(7), of p t] sS by simp
  have a: "\<exists>r\<in>set (parse_text p txt t). project r = p \<and> date r = d \<and> content r = S"
    using opened_record_stays [OF step refl, of "([], None)" ls1 ls2]
    by (simp add: parse_text_lines [OF assms(1)] assms(2))
  have b: "parse_text p txt t = [?r]"
    if o: "\<forall>l\<in>set (ls1 @ ls2). line_date l \<noteq> Some t" and n: "no_detail_before_date ls2"
  proof -
    from o have o1: "\<forall>l\<in>set ls1. line_date l \<noteq> Some t"
      and o2: "\<forall>l\<in>set ls2. line_date l \<noteq> Some t" by simp_all
    have "parse_text p txt t
        = fst (process_lines p t (process_line p t (process_lines p t ([], None) ls1) raw) ls2)"
      by (simp add: parse_text_lines [OF assms(1)] assms(2) process_lines_append
          process_lines_Cons)
    also have "\<dots> = fst (process_lines p t ([?r], Some 0) ls2)"
      by (simp add: no_target_lines [OF o1] step)
    also have "\<dots> = [?r]"
      by (rule no_detail_lines [OF o2 n])
    finally show ?thesis .
  qed
  from a b show ?thesis by blast
qed

theorem dated_line_emits_witness:
  "find_section ''## Recent Accomplishments''
      ''## Recent Accomplishments\<newline>- 2025-01-14: a\<newline>  - sub\<newline>- 2025-01-15: did X\<newline>- 2025-01-16: b\<newline>  - c\<newline>prose''
     = Some ''- 2025-01-14: a\<newline>  - sub\<newline>- 2025-01-15: did X\<newline>- 2025-01-16: b\<newline>  - c\<newline>prose''
   \<and> split_nl ''- 2025-01-14: a\<newline>  - sub\<newline>- 2025-01-15: did X\<newline>- 2025-01-16: b\<newline>  - c\<newline>prose''
       = [''- 2025-01-14: a'', ''  - sub''] @ ''- 2025-01-15: did X''
           # [''- 2025-01-16: b'', ''  - c'', ''prose'']
   \<and> strip ''- 2025-01-15: did X'' = ''-'' @ '' '' @ ''2025-01-15'' @ '':'' @ '' '' @ ''did X''
   \<and> list_all isspace '' '' \<and> is_date_token ''2025-01-15''
   \<and> strptime_date ''2025-01-15'' = Some (2025, 1, 15)
   \<and> no_detail_before_date [''- 2025-01-16: b'', ''  - c'', ''prose'']
   \<and> parse_text ''p''
        ''## Recent Accomplishments\<newline>- 2025-01-14: a\<newline>  - sub\<newline>- 2025-01-15: did X\<newline>- 2025-01-16: b\<newline>  - c\<newline>prose''
        (2025, 1, 15)
       = [\<lparr>project = ''p'', date = ''2025-01-15'', content = ''did X'', details = []\<rparr>]"
proof -
  have h1: "find_section ''## Recent Accomplishments''
      ''## Recent Accomplishments\<newline>- 2025-01-14: a\<newline>  - sub\<newline>- 2025-01-15: did X\<newline>- 2025-01-16: b\<newline>  - c\<newline>prose''
     = Some ''- 2025-01-14: a\<newline>  - sub\<newline>- 2025-01-15: did X\<newline>- 2025-01-16: b\<newline>  - c\<newline>prose''"
    by code_simp
  have h2: "split_nl ''- 2025-01-14: a\<newline>  - sub\<newline>- 2025-01-15: did X\<newline>- 2025-01-16: b\<newline>  - c\<newline>prose''
       = [''- 2025-01-14: a'', ''  - sub''] @ ''- 2025-01-15: did X''
           # [''- 2025-01-16: b'', ''  - c'', ''prose'']"
    by code_simp
  have h3: "strip ''- 2025-01-15: did X''
      = ''-'' @ '' '' @ ''2025-01-15'' @ '':'' @ '' '' @ ''did X''"
    by code_simp
  have h4: "list_all isspace '' ''" by code_simp
  have h6: "is_date_token ''2025-01-15''" by code_simp
  have h7: "strptime_date ''2025-01-15'' = Some (2025, 1, 15)" by code_simp
  have h8: "''did X'' \<noteq> []" by simp
  have h9: "\<not> isspace (hd ''did X'')" by code_simp
  have o: "\<forall>l\<in>set ([''- 2025-01-14: a'', ''  - sub''] @ [''- 2025-01-16: b'', ''  - c'', ''prose'']).
      line_date l \<noteq> Some (2025, 1, 15)"
    by code_simp
  have n: "no_detail_before_date [''- 2025-01-16: b'', ''  - c'', ''prose'']"
    by code_simp
  note th = dated_line_emits [OF h1 h2 h3 h4 h4 h6 h7 h8 h9, of "''p''", THEN conjunct2,
      THEN mp, OF conjI [OF o n]]
  from h1 h2 h3 h4 h6 h7 n th show ?thesis by (intro conjI)
qed

text \<open>
  C1 as stated fails for a text that has a detail line under the dated line: a line
  \<open>- more\<close> after it becomes a detail of the record.
\<close>

theorem dated_line_with_detail:
  "find_section ''## Recent Accomplishments''
      ''## Recent Accomplishments\<newline>- 2025-01-15: did X\<newline>- more''
     = Some ''- 2025-01-15: did X\<newline>- more''
   \<and> parse_text ''p'' ''## Recent Accomplishments\<newline>- 2025-01-15: did X\<newline>- more'' (2025, 1, 15)
       = [\<lparr>project = ''p'', date = ''2025-01-15'', content = ''did X'', details = [''more'']\<rparr>]"
  by code_simp

section \<open>The merge step\<close>

text \<open>
  C2. The claim: where the note has a \<open>## Development Work\<close> section followed by another
  heading of that level, merging replaces the region from the section's heading to just
  before the next heading and leaves the next heading and all that follows unchanged.
  The script does not do so when the section's body is blank: \<open>\s*\<close> takes the blank
  line, the newline before the next heading serves as the \<open>\n\<close> of the pattern, and the lazy
  group then runs over the next heading up to the heading after it or to the end of the
  text. Here the heading \<open>## Other\<close> and its line \<open>keep\<close> are lost.
\<close>

theorem merge_section_swallows_next_heading:
  "merge_section ''## Development Work\<newline>\<newline>## Other\<newline>keep\<newline>'' ''body''
     = ''## Development Work\<newline>\<newline>body''"
  by code_simp

text \<open>
  C5, as amended. Take a note file that exists, and its text as the script reads it, in
  text mode: \<open>\r\n\<close> and \<open>\r\<close> are read as \<open>\n\<close>, so the text read is the stored text
  where that has no carriage return. Where no line of the text read is the heading
  \<open>## Development Work\<close> (white space around it apart) and the section pattern finds no
  match in it, the script writes to the file the text read, closed by a newline if it was
  not, then one empty line, then the heading and the rendered body, and changes no other
  file. The lines written are the lines read, one blank line, and the lines of the new
  section; the blank lines before the new heading are that one and those that already
  ended the text, so they are exactly one where the last line read is not blank.
\<close>

theorem note_without_section_appended:
  assumes "files w (get_daily_note_path vault t) = Some raw"
    and "mkdir_parents (butlast (get_daily_note_path vault t)) w = Inr w1"
    and "re_search (section_rx section_header) (universal_newlines raw) = None"
    and "\<not> list_ex (\<lambda>l. strip l = section_header) (split_nl (universal_newlines raw))"
  shows "let txt = universal_newlines raw;
             body = format_accomplishments_for_obsidian accs;
             new = (if suffix [NL] txt then txt else txt @ [NL]) @ [NL] @ full_section body
         in update_daily_note vault accs t w
              = Inr (write_file (get_daily_note_path vault t) new w1)
          \<and> split_nl new = old_lines txt @ [[]] @ split_nl (full_section body)
          \<and> blank_run (take (Suc (length (old_lines txt))) (split_nl new))
              = Suc (blank_run (old_lines txt))
          \<and> (CR \<notin> set raw \<longrightarrow> txt = raw)"
proof -
  from mkdir_parents_files [OF assms(2)] assms(1)
  have f: "files w1 (get_daily_note_path vault t) = Some raw" by simp
  then have e: "path_exists w1 (get_daily_note_path vault t)" by (simp add: path_exists_def)
  have u: "update_daily_note vault accs t w
      = Inr (write_file (get_daily_note_path vault t)
          (merge_section (universal_newlines raw) (format_accomplishments_for_obsidian accs)) w1)"
    using assms(2) f e by (simp add: update_daily_note_def Let_def)
  show ?thesis
    unfolding Let_def u merge_section_no_match [OF assms(3)] appended_lines appended_blank_run
    by (simp add: universal_newlines_id)
qed

theorem note_without_section_appended_witness:
  "files \<lparr>files = [[''v'', ''Daily Notes'', ''2025'', ''01-January'', ''2025-01-15.md'']
                     \<mapsto> ''# Title'' @ [CR, NL] @ ''notes''], dirs = {}\<rparr>
       (get_daily_note_path [''v''] (2025, 1, 15)) = Some (''# Title'' @ [CR, NL] @ ''notes'')
   \<and> universal_newlines (''# Title'' @ [CR, NL] @ ''notes'') = ''# Title\<newline>notes''
   \<and> re_search (section_rx section_header) ''# Title\<newline>notes'' = None
   \<and> \<not> list_ex (\<lambda>l. strip l = section_header) (split_nl ''# Title\<newline>notes'')
   \<and> update_daily_note [''v''] [] (2025, 1, 15)
        \<lparr>files = [[''v'', ''Daily Notes'', ''2025'', ''01-January'', ''2025-01-15.md'']
                     \<mapsto> ''# Title'' @ [CR, NL] @ ''notes''], dirs = {}\<rparr>
       = Inr \<lparr>files = [[''v'', ''Daily Notes'', ''2025'', ''01-January'', ''2025-01-15.md'']
                \<mapsto> ''# Title\<newline>notes\<newline>\<newline>## Development Work\<newline>\<newline>No development accomplishments logged today.''],
              dirs = set (prefixes [''v'', ''Daily Notes'', ''2025'', ''01-January''])\<rparr>"
proof -
  let ?p = "[''v'', ''Daily Notes'', ''2025'', ''01-January'', ''2025-01-15.md'']"
  let ?raw = "''# Title'' @ [CR, NL] @ ''notes''"
  let ?w = "\<lparr>files = [?p \<mapsto> ?raw], dirs = {}\<rparr>"
  let ?w1 = "\<lparr>files = [?p \<mapsto> ?raw],
      dirs = set (prefixes [''v'', ''Daily Notes'', ''2025'', ''01-January''])\<rparr>"
  have p: "get_daily_note_path [''v''] (2025, 1, 15) = ?p" by code_simp
  have u: "universal_newlines ?raw = ''# Title\<newline>notes''" by code_simp
  have h1: "files ?w (get_daily_note_path [''v''] (2025, 1, 15)) = Some ?raw"
    unfolding p by simp
  have h2: "mkdir_parents (butlast (get_daily_note_path [''v''] (2025, 1, 15))) ?w = Inr ?w1"
    unfolding p by (simp add: mkdir_parents_def)
  have h3: "re_search (section_rx section_header) ''# Title\<newline>notes'' = None"
    by code_simp
  have h4: "\<not> list_ex (\<lambda>l. strip l = section_header) (split_nl ''# Title\<newline>notes'')"
    by code_simp
  have n: "(if suffix [NL] ''# Title\<newline>notes'' then ''# Title\<newline>notes''
            else ''# Title\<newline>notes'' @ [NL]) @ [NL]
          @ full_section (format_accomplishments_for_obsidian [])
      = ''# Title\<newline>notes\<newline>\<newline>## Development Work\<newline>\<newline>No development accomplishments logged today.''"
    by code_simp
  note th = note_without_section_appended [OF h1 h2 h3 [folded u] h4 [folded u], of "[]",
      unfolded Let_def, THEN conjunct1]
  have r: "update_daily_note [''v''] [] (2025, 1, 15) ?w
      = Inr \<lparr>files = [?p \<mapsto> ''# Title\<newline>notes\<newline>\<newline>## Development Work\<newline>\<newline>No development accomplishments logged today.''],
              dirs = set (prefixes [''v'', ''Daily Notes'', ''2025'', ''01-January''])\<rparr>"
    unfolding th u n p by (simp add: write_file_def)
  from h1 u h3 h4 r show ?thesis by (intro conjI)
qed

text \<open>
  C5 as stated fails where the old text ends with a blank line: two blank lines then stand
  between \<open># Title\<close> and the new heading.
\<close>

theorem merge_section_two_blank_lines:
  "re_search (section_rx section_header) ''# Title\<newline>\<newline>'' = None
   \<and> split_nl (merge_section ''# Title\<newline>\<newline>'' ''body'')
       = [''# Title'', [], [], ''## Development Work'', [], ''body'']"
  by code_simp

text \<open>
  A note whose last line is the heading, with no newline after it, has the heading but no
  match of the pattern: the script appends a second heading. This is why C5 asks that no
  line be the heading.
\<close>

lemma heading_on_last_line_is_appended_again:
  "re_search (section_rx section_header) ''# Title\<newline>## Development Work'' = None
   \<and> list_ex (\<lambda>l. strip l = section_header) (split_nl ''# Title\<newline>## Development Work'')
   \<and> merge_section ''# Title\<newline>## Development Work'' ''body''
       = ''# Title\<newline>## Development Work\<newline>\<newline>## Development Work\<newline>\<newline>body''"
  by code_simp

section \<open>Rendering\<close>

text \<open>
  C7. Rendering no record yields the fixed sentence. Rendering records yields the rendering
  of the specification (one block per project, the projects in lexicographic order, a
  heading line, one line per summary, one nested line per detail in order, one blank line
  between consecutive blocks) with white space trimmed at both ends of the whole text; for
  records whose summaries and details end in a character that is not white space, as
  extraction produces them (\<open>parse_text_tidy\<close>), the trimming changes nothing and the two
  are equal.
\<close>

theorem render_as_specified:
  "format_accomplishments_for_obsidian [] = ''No development accomplishments logged today.''
   \<and> format_accomplishments_for_obsidian records = strip (spec_render records)
   \<and> ((\<forall>r\<in>set records. tidy r) \<longrightarrow>
        format_accomplishments_for_obsidian records = spec_render records)"
  using render_stripped [of records] spec_render_tidy [of records]
  by (simp add: format_accomplishments_for_obsidian_def)

theorem render_as_specified_witness:
  "tidy \<lparr>project = ''b'', date = ''2025-01-15'', content = ''x'', details = [''d'']\<rparr>
   \<and> tidy \<lparr>project = ''a'', date = ''2025-01-15'', content = ''y'', details = []\<rparr>
   \<and> format_accomplishments_for_obsidian
        [\<lparr>project = ''b'', date = ''2025-01-15'', content = ''x'', details = [''d'']\<rparr>,
         \<lparr>project = ''a'', date = ''2025-01-15'', content = ''y'', details = []\<rparr>]
       = ''### [[a]]\<newline>- y\<newline>\<newline>### [[b]]\<newline>- x\<newline>  - d''"
proof -
  let ?b = "\<lparr>project = ''b'', date = ''2025-01-15'', content = ''x'', details = [''d'']\<rparr>"
  let ?a = "\<lparr>project = ''a'', date = ''2025-01-15'', content = ''y'', details = []\<rparr>"
  have tb: "tidy ?b" by (simp add: tidy_def isspace_def)
  have ta: "tidy ?a" by (simp add: tidy_def isspace_def)
  have sp: "spec_render [?b, ?a] = ''### [[a]]\<newline>- y\<newline>\<newline>### [[b]]\<newline>- x\<newline>  - d''"
    by code_simp
  from tb ta have "\<forall>r\<in>set [?b, ?a]. tidy r" by simp
  with render_as_specified [of "[?b, ?a]"]
  have "format_accomplishments_for_obsidian [?b, ?a] = spec_render [?b, ?a]" by blast
  with sp tb ta show ?thesis by (simp only: simp_thms)
qed

section \<open>The run\<close>

text \<open>
  C8. If the configured vault path does not exist, the run ends with an outcome other than
  exit status 0 and leaves the file system as it found it: no file is written. The outcome
  is exit status 1 unless the date given on the command line is refused first.
\<close>

theorem main_missing_vault:
  assumes "get_config e = Inr vault_path" and "\<not> path_exists w vault_path"
  shows "snd (main e w) = w \<and> fst (main e w) \<noteq> Exit 0
    \<and> (arg_date e = None \<longrightarrow> fst (main e w) = Exit 1)"
  using assms by (auto simp: main_def split: option.splits if_splits)

theorem main_missing_vault_witness:
  "get_config \<lparr>arg_date = None, arg_vault = None, env_vault = None,
       config_json = NoConfigFile, today = (2025, 1, 15),
       run_accomplishment_parser = (\<lambda>d w. ([], w))\<rparr> = Inr default_vault
   \<and> \<not> path_exists \<lparr>files = Map.empty, dirs = {}\<rparr> default_vault
   \<and> main \<lparr>arg_date = None, arg_vault = None, env_vault = None,
       config_json = NoConfigFile, today = (2025, 1, 15),
       run_accomplishment_parser = (\<lambda>d w. ([], w))\<rparr> \<lparr>files = Map.empty, dirs = {}\<rparr>
     = (Exit 1, \<lparr>files = Map.empty, dirs = {}\<rparr>)"
proof -
  let ?e = "\<lparr>arg_date = None, arg_vault = None, env_vault = None,
       config_json = NoConfigFile, today = (2025, 1, 15),
       run_accomplishment_parser = (\<lambda>d w. ([], w))\<rparr>"
  let ?w = "\<lparr>files = Map.empty, dirs = {}\<rparr>"
  have c: "get_config ?e = Inr default_vault"
    by (simp add: get_config_def OBSIDIAN_VAULT_PATH_def)
  have n: "\<not> path_exists ?w default_vault"
    by (simp add: path_exists_def)
  from main_missing_vault [OF c n] have "main ?e ?w = (Exit 1, ?w)"
    by (simp add: prod_eq_iff)
  with c n show ?thesis by simp
qed

end
